theory Spec2Isabelle
  imports Complex_Main
begin

section \<open>Strings\<close>

text \<open>
  A JavaScript string is a sequence of UTF-16 code units; \<open>length\<close>, \<open>endsWith\<close>,
  \<open>slice\<close> and the regular expressions of the analyzer (none has the \<open>u\<close> flag) all
  count code units. Every Hangul syllable (U+AC00 .. U+D7A3) is one code unit.
\<close>

type_synonym jstring = "nat list"

definition ascii :: "string \<Rightarrow> jstring" where
  "ascii s = map of_char s"

section \<open>Grades (sheetSaver.ts)\<close>

text \<open>The type \<open>Grade\<close>; \<open>Unexposed\<close> is the Korean label for "not exposed".\<close>

datatype Grade = S | A | B | C | Unexposed

text \<open>\<open>calcGrade(rank: number | null)\<close>, branch by branch.\<close>

definition calcGrade :: "int option \<Rightarrow> Grade" where
  "calcGrade rk =
     (case rk of
        None \<Rightarrow> Unexposed
      | Some r \<Rightarrow>
          if r = 1 then S
          else if r \<le> 5 then A
          else if r \<le> 10 then B
          else if r \<le> 30 then C
          else Unexposed)"

section \<open>Text extraction (keywordAnalyzer.ts)\<close>

subsection \<open>Character classes of the regular expressions\<close>

definition isHangul :: "nat \<Rightarrow> bool" where
  "isHangul c \<longleftrightarrow> 44032 \<le> c \<and> c \<le> 55203"

definition isAlnum :: "nat \<Rightarrow> bool" where
  "isAlnum c \<longleftrightarrow> (97 \<le> c \<and> c \<le> 122) \<or> (65 \<le> c \<and> c \<le> 90) \<or> (48 \<le> c \<and> c \<le> 57)"

text \<open>The class \<open>[U+AC00-U+D7A3 a-z A-Z 0-9 _]\<close> of the hashtag expression.\<close>

definition isTagChar :: "nat \<Rightarrow> bool" where
  "isTagChar c \<longleftrightarrow> isHangul c \<or> isAlnum c \<or> c = 95"

abbreviation hash :: nat where
  "hash \<equiv> 35"

subsection \<open>Hashtags\<close>

text \<open>
  \<open>content.match(/#([class]+)/g)\<close>: all matches, scanning left to right. A match starts
  at a \<open>#\<close> that is followed by a class character and takes the longest run of class
  characters; the scan resumes behind the match. Where no match starts, the scan moves
  one code unit on.
\<close>

function hashtagMatches :: "jstring \<Rightarrow> jstring list" where
  "hashtagMatches [] = []"
| "hashtagMatches (c # cs) =
     (if c = hash \<and> takeWhile isTagChar cs \<noteq> []
      then (c # takeWhile isTagChar cs) # hashtagMatches (dropWhile isTagChar cs)
      else hashtagMatches cs)"
  by pat_completeness auto
termination
  by (relation "measure length") (auto simp: length_dropWhile_le less_Suc_eq_le)

text \<open>\<open>t.replace('#', '')\<close>: the first occurrence of the pattern is removed.\<close>

definition replaceHash :: "jstring \<Rightarrow> jstring" where
  "replaceHash t = remove1 hash t"

text \<open>
  \<open>[...new Set(xs)]\<close>: a \<open>Set\<close> keeps its elements in insertion order and ignores the
  insertion of an element it has, so the first occurrence of each element stays.
\<close>

fun uniq :: "'a list \<Rightarrow> 'a list" where
  "uniq [] = []"
| "uniq (x # xs) = x # uniq (removeAll x xs)"

definition extractHashtags :: "jstring \<Rightarrow> jstring list" where
  "extractHashtags content = uniq (map replaceHash (hashtagMatches content))"

subsection \<open>Particles\<close>

text \<open>
  \<open>PARTICLES\<close>, in the order of the source: seven two-syllable particles
  (U+C5D0 U+C11C, U+C73C U+B85C, U+BD80 U+D130, U+AE4C U+C9C0, U+BCF4 U+B2E4,
  U+CC98 U+B7FC, U+D558 U+ACE0), then fourteen one-syllable particles.
\<close>

definition PARTICLES :: "jstring list" where
  "PARTICLES =
     [[50640, 49436], [51004, 47196], [48512, 53552], [44620, 51648], [48372, 45796],
      [52376, 47100], [54616, 44256],
      [51008], [45716], [51060], [44032], [51012], [47484], [51032], [50640], [50752],
      [44284], [46020], [47564], [47196], [45208]]"

text \<open>\<open>s.endsWith(p)\<close>: the last \<open>p.length\<close> code units of \<open>s\<close> are \<open>p\<close>.\<close>

definition endsWith :: "jstring \<Rightarrow> jstring \<Rightarrow> bool" where
  "endsWith s p \<longleftrightarrow> length p \<le> length s \<and> drop (length s - length p) s = p"

text \<open>
  \<open>s.slice(0, -n)\<close>: for \<open>n > 0\<close> the end index counts from the end of the string; for
  \<open>n = 0\<close> the end index is 0 and the slice is empty.
\<close>

definition sliceEnd :: "jstring \<Rightarrow> nat \<Rightarrow> jstring" where
  "sliceEnd s n = (if n = 0 then [] else take (length s - n) s)"

text \<open>
  The loop of \<open>stripParticles\<close> over the particles still to try. \<open>clean\<close> is assigned
  only just before \<open>break\<close>, so every test reads the input word.
\<close>

fun stripLoop :: "jstring list \<Rightarrow> jstring \<Rightarrow> jstring" where
  "stripLoop [] clean = clean"
| "stripLoop (p # ps) clean =
     (if endsWith clean p \<and> length clean > length p
      then (let stripped = sliceEnd clean (length p)
            in if length stripped \<ge> 2 then stripped else stripLoop ps clean)
      else stripLoop ps clean)"

definition stripParticles :: "jstring \<Rightarrow> jstring" where
  "stripParticles word = stripLoop PARTICLES word"

subsection \<open>Noun frequencies\<close>

definition STOPWORDS :: "jstring list" where
  "STOPWORDS =
     [[51080, 49845, 45768, 45796], [54633, 45768, 45796], [54616, 45716], [51080, 45716],
      [51060, 47088], [44536, 47088], [51200, 47088],
      [46412, 47928], [51060, 54980], [51060, 51204], [53685, 54644], [50948, 54644],
      [45824, 54620], [44288, 47144], [51060, 48264],
      [50724, 45720], [45236, 51068], [50612, 51228], [54616, 51648, 47564],
      [44536, 47532, 44256], [46608, 54620], [46384, 46972],
      [51221, 46020], [44221, 50864], [48512, 48516], [45236, 50857], [44057, 51008],
      [45796, 47480], [47784, 46304]]"

text \<open>
  \<open>text.match(/[U+AC00-U+D7A3]{2,}/g)\<close>: the maximal runs of Hangul syllables that are
  at least two long, left to right. A single syllable between other characters matches
  nothing and the scan moves on.
\<close>

function hangulWords :: "jstring \<Rightarrow> jstring list" where
  "hangulWords [] = []"
| "hangulWords (c # cs) =
     (if isHangul c \<and> takeWhile isHangul cs \<noteq> []
      then (c # takeWhile isHangul cs) # hangulWords (dropWhile isHangul cs)
      else hangulWords cs)"
  by pat_completeness auto
termination
  by (relation "measure length") (auto simp: length_dropWhile_le less_Suc_eq_le)

text \<open>
  A \<open>Map<string, number>\<close> iterates in insertion order, and \<open>set\<close> on a key it has
  keeps the key's place: an association list with \<open>mapSet\<close>. \<open>mapGet\<close> is
  \<open>freq.get(word) ?? 0\<close>, \<open>mapHas\<close> is \<open>has\<close>.
\<close>

type_synonym freqMap = "(jstring \<times> nat) list"

fun mapSet :: "freqMap \<Rightarrow> jstring \<Rightarrow> nat \<Rightarrow> freqMap" where
  "mapSet [] k v = [(k, v)]"
| "mapSet ((k', v') # m) k v = (if k' = k then (k, v) # m else (k', v') # mapSet m k v)"

definition mapGet :: "freqMap \<Rightarrow> jstring \<Rightarrow> nat" where
  "mapGet m k = (case map_of m k of None \<Rightarrow> 0 | Some v \<Rightarrow> v)"

definition mapHas :: "freqMap \<Rightarrow> jstring \<Rightarrow> bool" where
  "mapHas m k \<longleftrightarrow> map_of m k \<noteq> None"

fun nounLoop :: "freqMap \<Rightarrow> jstring list \<Rightarrow> freqMap" where
  "nounLoop freq [] = freq"
| "nounLoop freq (rawWord # ws) =
     (let word = stripParticles rawWord
      in if length word < 2 \<or> word \<in> set STOPWORDS then nounLoop freq ws
         else nounLoop (mapSet freq word (mapGet freq word + 1)) ws)"

definition extractNouns :: "jstring \<Rightarrow> freqMap" where
  "extractNouns txt = nounLoop [] (hangulWords txt)"

subsection \<open>Title n-grams\<close>

text \<open>
  The class \<open>\s\<close> of a JavaScript regular expression: tab, line feed, vertical tab,
  form feed, carriage return, space, U+00A0, U+1680, U+2000..U+200A, U+2028, U+2029,
  U+202F, U+205F, U+3000 and U+FEFF.
\<close>

definition isSpace :: "nat \<Rightarrow> bool" where
  "isSpace c \<longleftrightarrow> (9 \<le> c \<and> c \<le> 13) \<or> c = 32 \<or> c = 160 \<or> c = 5760 \<or> (8192 \<le> c \<and> c \<le> 8202)
     \<or> c = 8232 \<or> c = 8233 \<or> c = 8239 \<or> c = 8287 \<or> c = 12288 \<or> c = 65279"

text \<open>\<open>title.replace(/[^\sU+AC00-U+D7A3a-zA-Z0-9]/g, ' ')\<close>.\<close>

definition blankOthers :: "jstring \<Rightarrow> jstring" where
  "blankOthers t = map (\<lambda>c. if isSpace c \<or> isHangul c \<or> isAlnum c then c else 32) t"

text \<open>
  \<open>s.split(/\s+/)\<close>: the pieces between the maximal runs of white space; a run at the
  start or the end of the string leaves an empty piece there, and the empty string
  splits into one empty piece.
\<close>

function splitWs :: "jstring \<Rightarrow> jstring list" where
  "splitWs s =
     (if dropWhile (\<lambda>c. \<not> isSpace c) s = [] then [s]
      else takeWhile (\<lambda>c. \<not> isSpace c) s
           # splitWs (dropWhile isSpace (dropWhile (\<lambda>c. \<not> isSpace c) s)))"
  by pat_completeness auto
termination
proof (relation "measure length")
  fix s :: jstring
  assume ne: "dropWhile (\<lambda>c. \<not> isSpace c) s \<noteq> []"
  then obtain x xs where r: "dropWhile (\<lambda>c. \<not> isSpace c) s = x # xs"
    by (cases "dropWhile (\<lambda>c. \<not> isSpace c) s") auto
  then have "isSpace x" using hd_dropWhile [OF ne] by simp
  then have "length (dropWhile isSpace (x # xs)) \<le> length xs"
    by (simp add: length_dropWhile_le)
  moreover have "length (x # xs) \<le> length s"
    using length_dropWhile_le [of "\<lambda>c. \<not> isSpace c" s] r by simp
  ultimately show "(dropWhile isSpace (dropWhile (\<lambda>c. \<not> isSpace c) s), s) \<in> measure length"
    using r by simp
qed simp

declare splitWs.simps [simp del]

text \<open>The loop that pushes the bigram at \<open>i\<close> and, where a third token exists, the trigram.\<close>

fun ngramLoop :: "jstring list \<Rightarrow> jstring list" where
  "ngramLoop (a # b # c # ts) =
     (a @ [32] @ b) # (a @ [32] @ b @ [32] @ c) # ngramLoop (b # c # ts)"
| "ngramLoop [a, b] = [a @ [32] @ b]"
| "ngramLoop ts = []"

definition extractTitleNgrams :: "jstring \<Rightarrow> jstring list" where
  "extractTitleNgrams title =
     ngramLoop (filter (\<lambda>t. length t \<ge> 2) (map stripParticles (splitWs (blankOthers title))))"

subsection \<open>Smart keywords and the pool\<close>

text \<open>
  The loop used three times in \<open>extractSmartKeywords\<close>:
  \<^verbatim>\<open>for (const x of xs) { if (result.length >= 5) break; if (!result.includes(x)) result.push(x); }\<close>
\<close>

fun pushLoop :: "jstring list \<Rightarrow> jstring list \<Rightarrow> jstring list" where
  "pushLoop result [] = result"
| "pushLoop result (x # xs) =
     (if length result \<ge> 5 then result
      else if x \<notin> set result then pushLoop (result @ [x]) xs
      else pushLoop result xs)"

text \<open>
  The array \<open>scored\<close> before it is sorted: one pair for each title noun in the order of
  the title's map, then one for each noun of the content's map that the title lacks and
  that occurs at least twice.
\<close>

definition scored :: "freqMap \<Rightarrow> freqMap \<Rightarrow> (jstring \<times> nat) list" where
  "scored titleNouns contentNouns =
     map (\<lambda>(word, titleFreq). (word, titleFreq * 3 + mapGet contentNouns word)) titleNouns
     @ filter (\<lambda>(word, freq). \<not> mapHas titleNouns word \<and> freq \<ge> 2) contentNouns"

text \<open>
  \<open>scored.sort((a, b) => b[1] - a[1])\<close>. The sort of an array is stable, and the
  comparator is a consistent order on the scores, so the outcome is the one stable
  arrangement by descending score, whichever algorithm the engine runs; \<open>sort_key\<close>
  (insertion sort) computes it.
\<close>

definition sortByScore :: "(jstring \<times> nat) list \<Rightarrow> (jstring \<times> nat) list" where
  "sortByScore xs = sort_key (\<lambda>e. - int (snd e)) xs"

definition extractSmartKeywords :: "jstring \<Rightarrow> jstring \<Rightarrow> jstring list \<Rightarrow> jstring list" where
  "extractSmartKeywords title content tags =
     (let result1 = pushLoop [] tags
      in if length result1 \<ge> 5 then result1
         else
           let titleNouns = extractNouns title;
               contentNouns = extractNouns content;
               result2 = pushLoop result1 (map fst (sortByScore (scored titleNouns contentNouns)))
           in if length result2 \<ge> 5 then result2
              else pushLoop result2 (extractTitleNgrams title))"

definition mergeKeywordPool :: "jstring list \<Rightarrow> jstring list \<Rightarrow> jstring list" where
  "mergeKeywordPool tags smart = uniq (tags @ smart)"

section \<open>Rank prober\<close>

text \<open>
  An item of a result page. Both fields are read with \<open>?? ''\<close>, so either may be absent.
\<close>

record Item =
  link :: "jstring option"
  bloggerlink :: "jstring option"

text \<open>
  What one \<open>axios.get\<close> of the search endpoint gives the \<open>try\<close> block: a thrown value
  (network, HTTP status, timeout, or a body that cannot be read), or the body's
  \<open>items\<close>, which \<open>?? []\<close> allows to be absent.
\<close>

datatype 'e Response = Failed 'e | Page "Item list option"

record Request =
  query :: jstring
  display :: nat
  start :: nat
  headerClientId :: jstring
  headerClientSecret :: jstring

text \<open>
  Of the configuration the probe reads \<open>config.naverSearch.clientId\<close> and
  \<open>config.naverSearch.clientSecret\<close>, inside the \<open>try\<close> block, and sends them as headers.
\<close>

record Config =
  clientId :: jstring
  clientSecret :: jstring

text \<open>
  The search API is outside the program: \<open>'w\<close> is the state of the world and a call
  \<open>search w request\<close> returns the response and the next state, so that the API may answer
  the same request differently over time.
\<close>

type_synonym ('w, 'e) api = "'w \<Rightarrow> Request \<Rightarrow> 'e Response \<times> 'w"

text \<open>
  \<open>s.includes(t)\<close>: \<open>t\<close> occurs in \<open>s\<close> as a contiguous substring (\<open>includes\<close> is a
  keyword of Isabelle, hence the suffix).
\<close>

fun includesStr :: "jstring \<Rightarrow> jstring \<Rightarrow> bool" where
  "includesStr [] t \<longleftrightarrow> t = []"
| "includesStr (c # cs) t \<longleftrightarrow> take (length t) (c # cs) = t \<or> includesStr cs t"

text \<open>
  \<open>toLowerCase\<close> is the engine's Unicode lower-casing; the model takes it as the
  parameter \<open>lc\<close>. On a string of ASCII code units it is \<open>asciiLower\<close>.
\<close>

definition asciiLower :: "jstring \<Rightarrow> jstring" where
  "asciiLower s = map (\<lambda>c. if 65 \<le> c \<and> c \<le> 90 then c + 32 else c) s"

text \<open>The test of one item against the lower-cased pattern.\<close>

definition itemMatches :: "(jstring \<Rightarrow> jstring) \<Rightarrow> jstring \<Rightarrow> Item \<Rightarrow> bool" where
  "itemMatches lc urlPattern item =
     (let lnk = (case link item of None \<Rightarrow> [] | Some l \<Rightarrow> l)
                @ (case bloggerlink item of None \<Rightarrow> [] | Some b \<Rightarrow> b)
      in includesStr (lc lnk) (lc urlPattern))"

text \<open>The inner loop over the items of a page: it returns from the probe or falls through.\<close>

datatype Scan = Return int | Continue int

fun scanItems :: "(jstring \<Rightarrow> jstring) \<Rightarrow> jstring \<Rightarrow> Item list \<Rightarrow> int \<Rightarrow> Scan" where
  "scanItems lc urlPattern [] rk = Continue rk"
| "scanItems lc urlPattern (item # items) rk =
     (if itemMatches lc urlPattern item then Return (rk + 1)
      else scanItems lc urlPattern items (rk + 1))"

abbreviation MAX_RESULTS :: nat where
  "MAX_RESULTS \<equiv> 100"

abbreviation PAGE_SIZE :: nat where
  "PAGE_SIZE \<equiv> 10"

definition request :: "jstring \<Rightarrow> Config \<Rightarrow> nat \<Rightarrow> Request" where
  "request kw config st =
     \<lparr>query = kw, display = PAGE_SIZE, start = st,
      headerClientId = clientId config, headerClientSecret = clientSecret config\<rparr>"

text \<open>
  The body of the \<open>try\<close> block from the loop head on: \<open>Inl e\<close> when \<open>e\<close> is thrown,
  \<open>Inr r\<close> when the block returns \<open>r\<close>.
\<close>

function pageLoop ::
  "('w, 'e) api \<Rightarrow> (jstring \<Rightarrow> jstring) \<Rightarrow> jstring \<Rightarrow> jstring \<Rightarrow> Config \<Rightarrow> nat \<Rightarrow> int \<Rightarrow> 'w
     \<Rightarrow> ('e + int option) \<times> 'w" where
  "pageLoop search lc kw urlPattern config st rk w =
     (if st \<le> MAX_RESULTS then
        (case search w (request kw config st) of
           (Failed e, w') \<Rightarrow> (Inl e, w')
         | (Page its, w') \<Rightarrow>
             (let items = (case its of None \<Rightarrow> [] | Some xs \<Rightarrow> xs)
              in case scanItems lc urlPattern items rk of
                   Return r \<Rightarrow> (Inr (Some r), w')
                 | Continue rk' \<Rightarrow>
                     if length items < PAGE_SIZE then (Inr None, w')
                     else pageLoop search lc kw urlPattern config (st + PAGE_SIZE) rk' w'))
      else (Inr None, w))"
  by pat_completeness auto
termination
  by (relation "measure (\<lambda>(search, lc, kw, urlPattern, config, st, rk, w). 101 - st)") auto

declare pageLoop.simps [simp del]

text \<open>
  The lines written to the log sink, one constructor for each template of the source
  with the values it interpolates; the wording carries no logic.
\<close>

datatype 'e LogMsg =
    RankLookupError jstring 'e
  | HashtagsFound "jstring list"
  | SmartKeywordsDone "jstring list"
  | PoolDone nat
  | TitleFirst
  | TitleRanked int
  | TitleUnexposed
  | SurveyStart
  | Probing jstring
  | KeywordRanked jstring int
  | KeywordUnexposed jstring
  | BestSelected jstring "int option"
  | OthersFound "(jstring \<times> int option) list"
  | FinalKeyword "jstring option"

text \<open>\<open>onLog?.(msg)\<close>: the sink is optional; \<open>onLog\<close> tells whether one was passed.\<close>

definition emit :: "bool \<Rightarrow> 'm \<Rightarrow> 'm list \<Rightarrow> 'm list" where
  "emit onLog msg lg = (if onLog then lg @ [msg] else lg)"

text \<open>
  \<open>getBlogRank\<close>: the \<open>try\<close> block and its \<open>catch\<close>. The result is the rank, the log and
  the state of the world behind the last call.
\<close>

definition getBlogRank ::
  "('w, 'e) api \<Rightarrow> (jstring \<Rightarrow> jstring) \<Rightarrow> jstring \<Rightarrow> jstring \<Rightarrow> Config \<Rightarrow> bool
     \<Rightarrow> 'w \<Rightarrow> 'e LogMsg list \<Rightarrow> int option \<times> 'e LogMsg list \<times> 'w" where
  "getBlogRank search lc kw blogId config onLog w lg =
     (let urlPattern = ascii ''blog.naver.com/'' @ blogId
      in case pageLoop search lc kw urlPattern config 1 0 w of
           (Inr r, w') \<Rightarrow> (r, lg, w')
         | (Inl err, w') \<Rightarrow> (None, emit onLog (RankLookupError kw err) lg, w'))"

section \<open>Search volume\<close>

text \<open>
  A JavaScript number, as far as \<open>parseVolume\<close> tells numbers apart: not-a-number, the
  two infinities, or a finite value.
\<close>

datatype Number = NaN | Fin rat | PosInf | NegInf

text \<open>
  The argument of \<open>parseVolume\<close> is typed \<open>any\<close>: a number, a string, or a value of
  another type.
\<close>

datatype 'o JsValue = VNumber Number | VString jstring | VOther 'o

text \<open>
  \<open>Number(val)\<close> is the engine's conversion; the model takes it as the parameter
  \<open>toNumber\<close>.
\<close>

definition parseVolume :: "('o JsValue \<Rightarrow> Number) \<Rightarrow> 'o JsValue \<Rightarrow> Number" where
  "parseVolume toNumber val =
     (case val of
        VNumber n \<Rightarrow> n
      | _ \<Rightarrow>
          if (case val of VString s \<Rightarrow> includesStr s [60] | _ \<Rightarrow> False) then Fin 5
          else (let n = toNumber val in if n = NaN then Fin 0 else n))"

section \<open>Orchestrator\<close>

record SearchVolume =
  totalVolume :: Number
  monthlyPcQcCnt :: Number
  monthlyMobileQcCnt :: Number

record RankEntry =
  keyword :: jstring
  rank :: "int option"

record AnalysisFinalResult =
  hashtags :: "jstring list"
  smartKeywords :: "jstring list"
  pool :: "jstring list"
  titleRank :: "int option"
  ranks :: "RankEntry list"
  bestKeyword :: "jstring option"
  bestRank :: "int option"
  otherGoodKeywords :: "RankEntry list"
  finalKeyword :: "jstring option"
  searchVolume :: "SearchVolume option"

text \<open>Step 2, the loop over the pool: one probe and one entry for each member, in order.\<close>

fun probePool ::
  "('w, 'e) api \<Rightarrow> (jstring \<Rightarrow> jstring) \<Rightarrow> jstring \<Rightarrow> Config \<Rightarrow> jstring list
     \<Rightarrow> RankEntry list \<Rightarrow> 'w \<Rightarrow> 'e LogMsg list \<Rightarrow> RankEntry list \<times> 'e LogMsg list \<times> 'w" where
  "probePool search lc blogId config [] acc w lg = (acc, lg, w)"
| "probePool search lc blogId config (kw # kws) acc w lg =
     (case getBlogRank search lc kw blogId config True w (lg @ [Probing kw]) of
        (rk, lg', w') \<Rightarrow>
          probePool search lc blogId config kws (acc @ [\<lparr>keyword = kw, rank = rk\<rparr>]) w'
            (lg' @ [case rk of Some r \<Rightarrow> KeywordRanked kw r | None \<Rightarrow> KeywordUnexposed kw]))"

text \<open>
  The comparator of step 3 is \<open>a.rank! - b.rank!\<close>; the \<open>!\<close> is erased by the compiler,
  and in a subtraction \<open>null\<close> is 0. The same holds for \<open>r.rank! <= 10\<close>.
\<close>

definition rankNum :: "RankEntry \<Rightarrow> int" where
  "rankNum r = (case rank r of None \<Rightarrow> 0 | Some n \<Rightarrow> n)"

text \<open>
  \<open>ranked\<close>, \<open>best\<close> and \<open>otherGoodKeywords\<close> of steps 3 and 4. The sort is the stable
  ascending arrangement by rank.
\<close>

definition ranked :: "RankEntry list \<Rightarrow> RankEntry list" where
  "ranked rs = sort_key rankNum (filter (\<lambda>r. rank r \<noteq> None) rs)"

definition best :: "RankEntry list \<Rightarrow> RankEntry option" where
  "best rs = (case ranked rs of [] \<Rightarrow> None | b # _ \<Rightarrow> Some b)"

definition otherGood :: "RankEntry list \<Rightarrow> RankEntry list" where
  "otherGood rs =
     filter (\<lambda>r. Some (keyword r) \<noteq> map_option keyword (best rs) \<and> rankNum r \<le> 10) (ranked rs)"

definition analyzeBlogPosts ::
  "('w, 'e) api \<Rightarrow> (jstring \<Rightarrow> jstring) \<Rightarrow> jstring \<Rightarrow> jstring \<Rightarrow> jstring \<Rightarrow> Config
     \<Rightarrow> 'w \<Rightarrow> 'e LogMsg list \<Rightarrow> AnalysisFinalResult \<times> 'e LogMsg list \<times> 'w" where
  "analyzeBlogPosts search lc title content blogId config w lg =
     (let tags = extractHashtags content;
          lg1 = lg @ [HashtagsFound tags];
          smart = extractSmartKeywords title content tags;
          lg2 = lg1 @ [SmartKeywordsDone smart];
          pl = mergeKeywordPool tags smart;
          lg3 = lg2 @ [PoolDone (length pl)]
      in case getBlogRank search lc title blogId config True w lg3 of
        (tRank, lg4, w1) \<Rightarrow>
          (let lg5 = lg4 @ [if tRank = Some 1 then TitleFirst
                            else case tRank of Some r \<Rightarrow> TitleRanked r | None \<Rightarrow> TitleUnexposed];
               lg6 = lg5 @ [SurveyStart]
           in case probePool search lc blogId config pl [] w1 lg6 of
             (rs, lg7, w2) \<Rightarrow>
               (let bKeyword = map_option keyword (best rs);
                    bRank = (case best rs of None \<Rightarrow> None | Some b \<Rightarrow> rank b);
                    lg8 = (case bKeyword of
                             None \<Rightarrow> lg7
                           | Some k \<Rightarrow> if k = [] then lg7 else lg7 @ [BestSelected k bRank]);
                    others = otherGood rs;
                    lg9 = (if length others > 0
                           then lg8 @ [OthersFound (map (\<lambda>r. (keyword r, rank r)) others)]
                           else lg8);
                    fKeyword = bKeyword;
                    lg10 = lg9 @ [FinalKeyword fKeyword]
                in (\<lparr>hashtags = tags, smartKeywords = smart, pool = pl, titleRank = tRank,
                     ranks = rs, bestKeyword = bKeyword, bestRank = bRank,
                     otherGoodKeywords = others, finalKeyword = fKeyword,
                     searchVolume = None\<rparr>, lg10, w2))))"

section \<open>Notions of the specification\<close>

text \<open>
  A particle can be stripped from a word when the word ends with it and at least two
  code units remain.
\<close>

definition strippable :: "jstring \<Rightarrow> jstring \<Rightarrow> bool" where
  "strippable w p \<longleftrightarrow> endsWith w p \<and> length p + 2 \<le> length w"

text \<open>
  The hashtag tokens of a text, position by position: wherever a \<open>#\<close> is followed by at
  least one class character, the longest run of class characters behind it.
\<close>

fun tagTokens :: "jstring \<Rightarrow> jstring list" where
  "tagTokens [] = []"
| "tagTokens (c # cs) =
     (if c = hash \<and> takeWhile isTagChar cs \<noteq> [] then [takeWhile isTagChar cs] else [])
     @ tagTokens cs"

text \<open>Tags written back as text: each with its marker and a space behind it.\<close>

definition renderTags :: "jstring list \<Rightarrow> jstring" where
  "renderTags ts = concat (map (\<lambda>t. hash # t @ [32]) ts)"

text \<open>
  The nouns of a text, one for each occurrence: the Hangul runs of at least two syllables,
  each with its particle stripped, without those shorter than two and the stop words.
\<close>

definition nounTokens :: "jstring \<Rightarrow> jstring list" where
  "nounTokens txt =
     filter (\<lambda>word. \<not> (length word < 2 \<or> word \<in> set STOPWORDS)) (map stripParticles (hangulWords txt))"

text \<open>
  The scored candidates as the specification words them: every title noun in order of
  first occurrence with three times its title frequency plus its content frequency, then
  every noun of the content alone that occurs at least twice, with its content frequency.
\<close>

definition candidates :: "jstring \<Rightarrow> jstring \<Rightarrow> (jstring \<times> nat) list" where
  "candidates title content =
     [(word, count_list (nounTokens title) word * 3 + count_list (nounTokens content) word).
        word \<leftarrow> uniq (nounTokens title)]
     @ [(word, count_list (nounTokens content) word).
        word \<leftarrow> uniq (nounTokens content),
        word \<notin> set (nounTokens title) \<and> count_list (nounTokens content) word \<ge> 2]"

text \<open>The frequency map of a list of tokens: keys in order of first occurrence.\<close>

definition countsOf :: "jstring list \<Rightarrow> freqMap" where
  "countsOf toks = map (\<lambda>word. (word, count_list toks word)) (uniq toks)"

text \<open>
  A probe seen from outside: call \<open>i\<close> (counted from 0) asks for the page at offset
  \<open>10 * i + 1\<close>. \<open>worldAt\<close> is the state of the world before call \<open>i\<close> and \<open>pageAt\<close> the
  response to it, as long as the probe keeps paging.
\<close>

fun worldAt :: "('w, 'e) api \<Rightarrow> jstring \<Rightarrow> Config \<Rightarrow> 'w \<Rightarrow> nat \<Rightarrow> 'w" where
  "worldAt search kw config w 0 = w"
| "worldAt search kw config w (Suc i) =
     snd (search (worldAt search kw config w i) (request kw config (PAGE_SIZE * i + 1)))"

definition pageAt :: "('w, 'e) api \<Rightarrow> jstring \<Rightarrow> Config \<Rightarrow> 'w \<Rightarrow> nat \<Rightarrow> 'e Response" where
  "pageAt search kw config w i =
     fst (search (worldAt search kw config w i) (request kw config (PAGE_SIZE * i + 1)))"

text \<open>The items the loop iterates over, when the call returns.\<close>

definition itemsOf :: "'e Response \<Rightarrow> Item list option" where
  "itemsOf resp = (case resp of Failed e \<Rightarrow> None | Page None \<Rightarrow> Some [] | Page (Some xs) \<Rightarrow> Some xs)"

text \<open>A page that makes the loop go on: full, and no item on it matches.\<close>

definition fullMiss :: "(jstring \<Rightarrow> jstring) \<Rightarrow> jstring \<Rightarrow> 'e Response \<Rightarrow> bool" where
  "fullMiss lc urlPattern resp \<longleftrightarrow>
     (case itemsOf resp of
        None \<Rightarrow> False
      | Some xs \<Rightarrow> length xs = PAGE_SIZE \<and> list_all (\<lambda>x. \<not> itemMatches lc urlPattern x) xs)"

text \<open>The pattern \<open>blog.naver.com/{blogId}\<close>.\<close>

abbreviation urlPatternOf :: "jstring \<Rightarrow> jstring" where
  "urlPatternOf blogId \<equiv> ascii ''blog.naver.com/'' @ blogId"

text \<open>
  The test as the specification words it: the link contains the pattern, or the owner
  link does.
\<close>

definition linkOrOwnerContains :: "(jstring \<Rightarrow> jstring) \<Rightarrow> jstring \<Rightarrow> Item \<Rightarrow> bool" where
  "linkOrOwnerContains lc urlPattern item \<longleftrightarrow>
     includesStr (lc (case link item of None \<Rightarrow> [] | Some l \<Rightarrow> l)) (lc urlPattern)
     \<or> includesStr (lc (case bloggerlink item of None \<Rightarrow> [] | Some b \<Rightarrow> b)) (lc urlPattern)"

section \<open>Sample inputs\<close>

text \<open>
  Items and search APIs for the blog \<open>abc\<close>: an item of the blog (in mixed case), an
  item of another site, and an item whose link ends where its owner link goes on. The
  sample APIs have no state and never change.
\<close>

definition hitItem :: Item where
  "hitItem = \<lparr>link = Some (ascii ''https://Blog.Naver.com/ABC/1''), bloggerlink = None\<rparr>"

definition missItem :: Item where
  "missItem = \<lparr>link = Some (ascii ''https://example.com/1''), bloggerlink = Some (ascii ''example.com'')\<rparr>"

definition straddleItem :: Item where
  "straddleItem = \<lparr>link = Some (ascii ''https://blog.naver''), bloggerlink = Some (ascii ''.com/abc'')\<rparr>"

definition sampleConfig :: Config where
  "sampleConfig = \<lparr>clientId = ascii ''id'', clientSecret = ascii ''secret''\<rparr>"

definition tenthApi :: "(unit, unit) api" where
  "tenthApi w rq = (Page (Some (replicate 9 missItem @ [hitItem])), w)"

definition secondPageApi :: "(unit, unit) api" where
  "secondPageApi w rq =
     (if start rq = 1 then Page (Some (replicate 10 missItem)) else Page (Some [hitItem]), w)"

definition shortApi :: "(unit, unit) api" where
  "shortApi w rq = (Page (Some [missItem]), w)"

definition fullApi :: "(unit, unit) api" where
  "fullApi w rq = (Page (Some (replicate 10 missItem)), w)"

definition failApi :: "(unit, unit) api" where
  "failApi w rq = (Failed (), w)"

definition straddleApi :: "(unit, unit) api" where
  "straddleApi w rq = (Page (Some [straddleItem, hitItem]), w)"

text \<open>
  An API that ranks the blog seventh for the keyword \<open>b\<close> and third for \<open>c\<close> and does
  not list it for any other query, and one that also lists it first for the query \<open>t\<close>.
\<close>

definition rankedApi :: "(unit, unit) api" where
  "rankedApi w rq =
     (Page (Some (if query rq = ascii ''b'' then replicate 6 missItem @ [hitItem]
                  else if query rq = ascii ''c'' then replicate 2 missItem @ [hitItem]
                  else [missItem])), w)"

definition rankedTitleApi :: "(unit, unit) api" where
  "rankedTitleApi w rq =
     (Page (Some (if query rq = ascii ''t'' then [hitItem]
                  else if query rq = ascii ''b'' then replicate 6 missItem @ [hitItem]
                  else if query rq = ascii ''c'' then replicate 2 missItem @ [hitItem]
                  else [missItem])), w)"

text \<open>
  A title of the two words U+AC15 U+B0A8 and U+B9DB U+C9D1, and a content with the second
  of them twice and the word U+CE74 U+D398 twice.
\<close>

definition sampleTitle :: jstring where
  "sampleTitle = [44053, 45224, 32, 47579, 51665]"

definition sampleContent :: jstring where
  "sampleContent = [47579, 51665, 32, 47579, 51665, 32, 52852, 54168, 32, 52852, 54168]"

text \<open>
  \<open>Number\<close> on the values used below: the digits \<open>1234\<close> read as 1234; \<open><10\<close>, \<open>abc\<close>
  and \<open>undefined\<close> (the one value of type \<open>unit\<close>) are not numbers.
\<close>

definition sampleNumber :: "unit JsValue \<Rightarrow> Number" where
  "sampleNumber = (\<lambda>v. if v = VString [49, 50, 51, 52] then Fin 1234 else NaN)"

section \<open>Lists without duplicates\<close>

lemma set_uniq [simp]: "set (uniq xs) = set xs"
  by (induction xs rule: uniq.induct) auto

lemma distinct_uniq [simp]: "distinct (uniq xs)"
  by (induction xs rule: uniq.induct) auto

lemma uniq_distinct: "distinct xs \<Longrightarrow> uniq xs = xs"
  by (induction xs) (auto simp: removeAll_id)

lemma uniq_snoc: "uniq (xs @ [y]) = uniq xs @ (if y \<in> set xs then [] else [y])"
  by (induction xs rule: uniq.induct) auto

lemma uniq_first_occurrences:
  "uniq xs = [xs ! i. i \<leftarrow> [0..<length xs], xs ! i \<notin> set (take i xs)]"
proof (induction xs rule: rev_induct)
  case Nil
  then show ?case by simp
next
  case (snoc y xs)
  have "[(xs @ [y]) ! i. i \<leftarrow> [0..<length xs], (xs @ [y]) ! i \<notin> set (take i (xs @ [y]))]
      = [xs ! i. i \<leftarrow> [0..<length xs], xs ! i \<notin> set (take i xs)]"
    by (intro arg_cong [where f = concat] map_cong) (auto simp: nth_append)
  with snoc show ?case by (simp add: uniq_snoc nth_append)
qed

section \<open>Particle stripping\<close>

lemma endsWith_iff: "endsWith s p \<longleftrightarrow> (\<exists>r. s = r @ p)"
proof
  assume "endsWith s p"
  then have "s = take (length s - length p) s @ p"
    by (metis endsWith_def append_take_drop_id)
  then show "\<exists>r. s = r @ p" ..
next
  assume "\<exists>r. s = r @ p"
  then show "endsWith s p" by (auto simp: endsWith_def)
qed

lemma strippable_iff: "strippable w p \<longleftrightarrow> (\<exists>r. w = r @ p \<and> 2 \<le> length r)"
  by (auto simp: strippable_def endsWith_iff)

lemma stripLoop_find:
  "[] \<notin> set ps \<Longrightarrow>
   stripLoop ps w =
     (case find (strippable w) ps of None \<Rightarrow> w | Some p \<Rightarrow> take (length w - length p) w)"
proof (induction ps)
  case Nil
  then show ?case by simp
next
  case (Cons p ps)
  then have "p \<noteq> []" by auto
  then show ?case using Cons by (simp add: strippable_def sliceEnd_def Let_def) linarith
qed

lemma stripLoop_suffix: "\<exists>p \<in> set ([] # ps). stripLoop ps w @ p = w"
proof (induction ps)
  case Nil
  then show ?case by simp
next
  case (Cons p ps)
  show ?case
  proof (cases "stripLoop (p # ps) w = stripLoop ps w")
    case True
    with Cons show ?thesis by auto
  next
    case False
    then have e: "endsWith w p" and s: "stripLoop (p # ps) w = sliceEnd w (length p)"
      and l: "2 \<le> length (sliceEnd w (length p))"
      by (auto simp: Let_def split: if_splits)
    from l have "p \<noteq> []" by (auto simp: sliceEnd_def)
    with e have "sliceEnd w (length p) @ p = w"
      unfolding endsWith_def sliceEnd_def by (metis append_take_drop_id length_0_conv)
    with s show ?thesis by simp
  qed
qed

lemma PARTICLES_nonempty: "[] \<notin> set PARTICLES"
  by (simp add: PARTICLES_def)

text \<open>
  C5. \<open>stripParticles\<close> removes the first particle, in the order of the list, that the
  word ends with and whose removal leaves at least two code units, and leaves the word
  unchanged when there is none; so it removes at most one listed suffix. A particle whose
  removal would leave a single syllable is passed over and the later ones are still tried
  (the word U+C9D1 U+C73C U+B85C loses only its last syllable); the result is not
  stripped again (the five-syllable word keeps a particle that a second call removes).
  The word of four syllables ending in U+B97C loses it; the single syllable U+AC00 stays.
\<close>

theorem stripParticles_first_in_list_order:
  "stripParticles w =
     (case find (strippable w) PARTICLES of
        None \<Rightarrow> w
      | Some p \<Rightarrow> take (length w - length p) w)
   \<and> (\<forall>p. strippable w p \<longleftrightarrow> (\<exists>r. w = r @ p \<and> 2 \<le> length r))
   \<and> (\<exists>p \<in> set ([] # PARTICLES). stripParticles w @ p = w)
   \<and> stripParticles [53412, 50892, 46300, 47484] = [53412, 50892, 46300]
   \<and> stripParticles [44032] = [44032]
   \<and> stripParticles [51665, 51004, 47196] = [51665, 51004]
   \<and> stripParticles [54617, 44368, 50640, 49436, 45716] = [54617, 44368, 50640, 49436]
   \<and> stripParticles [54617, 44368, 50640, 49436] = [54617, 44368]"
proof -
  have "stripParticles w =
     (case find (strippable w) PARTICLES of
        None \<Rightarrow> w
      | Some p \<Rightarrow> take (length w - length p) w)"
    unfolding stripParticles_def by (rule stripLoop_find [OF PARTICLES_nonempty])
  moreover have "\<exists>p \<in> set ([] # PARTICLES). stripParticles w @ p = w"
    unfolding stripParticles_def by (rule stripLoop_suffix)
  moreover have "stripParticles [53412, 50892, 46300, 47484] = [53412, 50892, 46300]"
    by (simp add: stripParticles_def PARTICLES_def endsWith_def sliceEnd_def)
  moreover have "stripParticles [44032] = [44032]"
    by (simp add: stripParticles_def PARTICLES_def endsWith_def sliceEnd_def)
  moreover have "stripParticles [51665, 51004, 47196] = [51665, 51004]"
    by (simp add: stripParticles_def PARTICLES_def endsWith_def sliceEnd_def)
  moreover have
    "stripParticles [54617, 44368, 50640, 49436, 45716] = [54617, 44368, 50640, 49436]"
    by (simp add: stripParticles_def PARTICLES_def endsWith_def sliceEnd_def)
  moreover have "stripParticles [54617, 44368, 50640, 49436] = [54617, 44368]"
    by (simp add: stripParticles_def PARTICLES_def endsWith_def sliceEnd_def)
  ultimately show ?thesis by (simp add: strippable_iff)
qed

section \<open>Hashtags\<close>

lemma isTagChar_not_hash: "isTagChar c \<Longrightarrow> c \<noteq> hash"
  by (auto simp: isTagChar_def isHangul_def isAlnum_def)

lemma tagTokens_skip: "\<forall>c \<in> set xs. isTagChar c \<Longrightarrow> tagTokens (xs @ ys) = tagTokens ys"
  by (induction xs) (auto dest: isTagChar_not_hash)

lemma tagTokens_dropWhile: "tagTokens (dropWhile isTagChar cs) = tagTokens cs"
proof -
  have "tagTokens (takeWhile isTagChar cs @ dropWhile isTagChar cs)
      = tagTokens (dropWhile isTagChar cs)"
    by (rule tagTokens_skip) (auto dest: set_takeWhileD)
  then show ?thesis by simp
qed

lemma hashtagMatches_tokens: "map replaceHash (hashtagMatches s) = tagTokens s"
  by (induction s rule: hashtagMatches.induct) (auto simp: replaceHash_def tagTokens_dropWhile)

lemma tagTokens_wellformed: "t \<in> set (tagTokens s) \<Longrightarrow> t \<noteq> [] \<and> (\<forall>c \<in> set t. isTagChar c)"
  by (induction s) (auto split: if_splits dest: set_takeWhileD)

lemma tagTokens_renderTags:
  "\<forall>t \<in> set ts. t \<noteq> [] \<and> (\<forall>c \<in> set t. isTagChar c) \<Longrightarrow> tagTokens (renderTags ts) = ts"
proof (induction ts)
  case Nil
  then show ?case by (simp add: renderTags_def)
next
  case (Cons t ts)
  then have t: "t \<noteq> []" "\<forall>c \<in> set t. isTagChar c" by auto
  have sp: "\<not> isTagChar 32" by (simp add: isTagChar_def isHangul_def isAlnum_def)
  from t sp have tw: "takeWhile isTagChar (t @ 32 # renderTags ts) = t"
    by (simp add: takeWhile_append2)
  have "tagTokens (t @ 32 # renderTags ts) = tagTokens (32 # renderTags ts)"
    using t by (simp add: tagTokens_skip)
  with Cons tw t show ?case by (simp add: renderTags_def)
qed

text \<open>
  C7. \<open>extractHashtags\<close> returns the hashtag tokens of the text (each \<open>#\<close> that is
  followed by class characters gives the longest run of them, without the marker), with
  duplicates removed so that exactly the first occurrence of each token stays, in scan
  order. The result has no duplicates, removing duplicates again changes nothing, and
  extracting from the tags written back as text returns the same list. The text
  \<open>#X Y #X\<close> with the syllables X = U+BD04 and Y = U+C637 gives \<open>[X]\<close>.
\<close>

theorem extractHashtags_first_occurrences:
  "extractHashtags s = uniq (tagTokens s)
   \<and> extractHashtags s =
       [tagTokens s ! i. i \<leftarrow> [0..<length (tagTokens s)],
          tagTokens s ! i \<notin> set (take i (tagTokens s))]
   \<and> distinct (extractHashtags s)
   \<and> uniq (extractHashtags s) = extractHashtags s
   \<and> extractHashtags (renderTags (extractHashtags s)) = extractHashtags s
   \<and> extractHashtags [35, 48388, 32, 50743, 32, 35, 48388] = [[48388]]"
proof -
  have eq: "extractHashtags s = uniq (tagTokens s)" for s
    by (simp add: extractHashtags_def hashtagMatches_tokens)
  have "tagTokens (renderTags (uniq (tagTokens s))) = uniq (tagTokens s)"
    by (rule tagTokens_renderTags) (use tagTokens_wellformed in auto)
  then have "extractHashtags (renderTags (extractHashtags s)) = extractHashtags s"
    by (simp add: eq uniq_distinct)
  moreover have "extractHashtags [35, 48388, 32, 50743, 32, 35, 48388] = [[48388]]"
    by (simp add: extractHashtags_def isTagChar_def isHangul_def isAlnum_def replaceHash_def)
  moreover have "extractHashtags s =
       [tagTokens s ! i. i \<leftarrow> [0..<length (tagTokens s)],
          tagTokens s ! i \<notin> set (take i (tagTokens s))]"
    unfolding eq by (rule uniq_first_occurrences)
  moreover have "distinct (extractHashtags s)"
    by (simp add: eq)
  moreover have "uniq (extractHashtags s) = extractHashtags s"
    by (simp add: eq uniq_distinct)
  ultimately show ?thesis
    using eq [of s] by blast
qed

section \<open>Grading\<close>

text \<open>
  C3. For a rank that is null or a positive integer, the grade is S exactly at rank 1,
  A exactly on 2..5, B exactly on 6..10, C exactly on 11..30 and Unexposed exactly for a
  rank of at least 31 or null; the nine probe values map as the boundary table says.
\<close>

theorem calcGrade_table:
  "(rk = None \<or> (\<exists>r. rk = Some r \<and> 0 < r)) \<Longrightarrow>
     (calcGrade rk = S \<longleftrightarrow> rk = Some 1) \<and>
     (calcGrade rk = A \<longleftrightarrow> (\<exists>r. rk = Some r \<and> 2 \<le> r \<and> r \<le> 5)) \<and>
     (calcGrade rk = B \<longleftrightarrow> (\<exists>r. rk = Some r \<and> 6 \<le> r \<and> r \<le> 10)) \<and>
     (calcGrade rk = C \<longleftrightarrow> (\<exists>r. rk = Some r \<and> 11 \<le> r \<and> r \<le> 30)) \<and>
     (calcGrade rk = Unexposed \<longleftrightarrow> (rk = None \<or> (\<exists>r. rk = Some r \<and> 31 \<le> r))) \<and>
     map calcGrade [Some 1, Some 2, Some 5, Some 6, Some 10, Some 11, Some 30, Some 31, None]
       = [S, A, A, B, B, C, C, Unexposed, Unexposed]"
  by (auto simp: calcGrade_def split: if_splits)

theorem calcGrade_table_witness:
  "calcGrade (Some 7) = B \<and> calcGrade (Some 1) = S \<and> calcGrade None = Unexposed"
  using calcGrade_table [of "Some 7"] calcGrade_table [of "Some 1"] calcGrade_table [of None]
  by simp

section \<open>Rank probing\<close>

lemma scanItems_miss:
  "list_all (\<lambda>x. \<not> itemMatches lc pat x) xs \<Longrightarrow> scanItems lc pat xs rk = Continue (rk + int (length xs))"
  by (induction xs arbitrary: rk) auto

lemma scanItems_hit:
  "j < length xs \<Longrightarrow> itemMatches lc pat (xs ! j) \<Longrightarrow> \<forall>i<j. \<not> itemMatches lc pat (xs ! i)
   \<Longrightarrow> scanItems lc pat xs rk = Return (rk + int j + 1)"
proof (induction xs arbitrary: rk j)
  case Nil then show ?case by simp
next
  case (Cons x xs)
  show ?case
  proof (cases j)
    case 0 with Cons.prems show ?thesis by simp
  next
    case (Suc j')
    with Cons.prems have "\<not> itemMatches lc pat x" by auto
    moreover have "scanItems lc pat xs (rk + 1) = Return (rk + 1 + int j' + 1)"
      using Cons.prems Suc by (intro Cons.IH) auto
    ultimately show ?thesis using Suc by simp
  qed
qed

lemma scanItems_Return_bounds:
  "scanItems lc pat xs rk = Return r \<Longrightarrow> rk < r \<and> r \<le> rk + int (length xs)"
  by (induction xs arbitrary: rk) (fastforce split: if_splits)+

lemma scanItems_Continue:
  "scanItems lc pat xs rk = Continue r \<Longrightarrow> r = rk + int (length xs)"
  by (induction xs arbitrary: rk) (fastforce split: if_splits)+

lemma pageLoop_Failed:
  "st \<le> MAX_RESULTS \<Longrightarrow> search w (request kw config st) = (Failed e, w') \<Longrightarrow>
   pageLoop search lc kw pat config st rk w = (Inl e, w')"
  by (subst pageLoop.simps) simp

lemma pageLoop_Return:
  "st \<le> MAX_RESULTS \<Longrightarrow> search w (request kw config st) = (resp, w') \<Longrightarrow>
   itemsOf resp = Some xs \<Longrightarrow> scanItems lc pat xs rk = Return r \<Longrightarrow>
   pageLoop search lc kw pat config st rk w = (Inr (Some r), w')"
  by (subst pageLoop.simps) (auto simp: itemsOf_def Let_def split: Response.splits option.splits)

lemma pageLoop_short:
  "st \<le> MAX_RESULTS \<Longrightarrow> search w (request kw config st) = (resp, w') \<Longrightarrow>
   itemsOf resp = Some xs \<Longrightarrow> scanItems lc pat xs rk = Continue rk' \<Longrightarrow>
   length xs < PAGE_SIZE \<Longrightarrow>
   pageLoop search lc kw pat config st rk w = (Inr None, w')"
  by (subst pageLoop.simps) (auto simp: itemsOf_def Let_def split: Response.splits option.splits)

lemma pageLoop_next:
  "st \<le> MAX_RESULTS \<Longrightarrow> search w (request kw config st) = (resp, w') \<Longrightarrow>
   itemsOf resp = Some xs \<Longrightarrow> scanItems lc pat xs rk = Continue rk' \<Longrightarrow>
   \<not> length xs < PAGE_SIZE \<Longrightarrow>
   pageLoop search lc kw pat config st rk w
     = pageLoop search lc kw pat config (st + PAGE_SIZE) rk' w'"
  by (subst pageLoop.simps) (auto simp: itemsOf_def Let_def split: Response.splits option.splits)

lemma pageLoop_beyond:
  "\<not> st \<le> MAX_RESULTS \<Longrightarrow> pageLoop search lc kw pat config st rk w = (Inr None, w)"
  by (subst pageLoop.simps) simp

lemma search_pageAt:
  "search (worldAt search kw config w k) (request kw config (PAGE_SIZE * k + 1))
     = (pageAt search kw config w k, worldAt search kw config w (Suc k))"
  by (simp add: pageAt_def)

lemma pageLoop_step_fullMiss:
  assumes "fullMiss lc pat (pageAt search kw config w k)" and "k < 10"
  shows "pageLoop search lc kw pat config (PAGE_SIZE * k + 1) (int (PAGE_SIZE * k)) (worldAt search kw config w k)
       = pageLoop search lc kw pat config (PAGE_SIZE * Suc k + 1) (int (PAGE_SIZE * Suc k)) (worldAt search kw config w (Suc k))"
proof -
  from assms(1) obtain xs where xs: "itemsOf (pageAt search kw config w k) = Some xs" "length xs = 10"
    "list_all (\<lambda>x. \<not> itemMatches lc pat x) xs"
    by (auto simp: fullMiss_def split: option.splits)
  then have sc: "scanItems lc pat xs (int (PAGE_SIZE * k)) = Continue (int (PAGE_SIZE * Suc k))"
    using scanItems_miss [of lc pat xs "int (10 * k)"] by simp
  from assms(2) have le: "PAGE_SIZE * k + 1 \<le> MAX_RESULTS" by simp
  have "pageLoop search lc kw pat config (PAGE_SIZE * k + 1) (int (PAGE_SIZE * k)) (worldAt search kw config w k)
      = pageLoop search lc kw pat config (PAGE_SIZE * k + 1 + PAGE_SIZE) (int (PAGE_SIZE * Suc k)) (worldAt search kw config w (Suc k))"
    by (rule pageLoop_next [where search = search and w = "worldAt search kw config w k", OF le search_pageAt xs(1) sc])
       (simp add: xs(2))
  then show ?thesis by (simp add: add.commute add.left_commute)
qed

lemma pageLoop_prefix:
  "\<forall>i<k. fullMiss lc pat (pageAt search kw config w i) \<Longrightarrow> k \<le> 10 \<Longrightarrow>
   pageLoop search lc kw pat config 1 0 w
     = pageLoop search lc kw pat config (PAGE_SIZE * k + 1) (int (PAGE_SIZE * k)) (worldAt search kw config w k)"
proof (induction k)
  case 0 then show ?case by simp
next
  case (Suc k)
  then have "pageLoop search lc kw pat config 1 0 w
     = pageLoop search lc kw pat config (PAGE_SIZE * k + 1) (int (PAGE_SIZE * k)) (worldAt search kw config w k)"
    by simp
  also have "\<dots> = pageLoop search lc kw pat config (PAGE_SIZE * Suc k + 1) (int (PAGE_SIZE * Suc k)) (worldAt search kw config w (Suc k))"
    using Suc.prems by (intro pageLoop_step_fullMiss) auto
  finally show ?case .
qed


lemma getBlogRank_hit:
  assumes "\<forall>i<k. fullMiss lc (urlPatternOf blogId) (pageAt search kw config w i)" and "k < 10"
    and "itemsOf (pageAt search kw config w k) = Some xs" and "j < length xs"
    and "itemMatches lc (urlPatternOf blogId) (xs ! j)"
    and "\<forall>i<j. \<not> itemMatches lc (urlPatternOf blogId) (xs ! i)"
  shows "getBlogRank search lc kw blogId config onLog w lg
       = (Some (int (PAGE_SIZE * k + j + 1)), lg, worldAt search kw config w (Suc k))"
proof -
  have le: "PAGE_SIZE * k + 1 \<le> MAX_RESULTS" using assms(2) by simp
  have sc: "scanItems lc (urlPatternOf blogId) xs (int (PAGE_SIZE * k)) = Return (int (PAGE_SIZE * k + j + 1))"
    using scanItems_hit [OF assms(4,5,6), of "int (PAGE_SIZE * k)"] by simp
  have "pageLoop search lc kw (urlPatternOf blogId) config 1 0 w
      = pageLoop search lc kw (urlPatternOf blogId) config (PAGE_SIZE * k + 1) (int (PAGE_SIZE * k))
          (worldAt search kw config w k)"
    using assms(1,2) by (intro pageLoop_prefix) auto
  also have "\<dots> = (Inr (Some (int (PAGE_SIZE * k + j + 1))), worldAt search kw config w (Suc k))"
    by (rule pageLoop_Return [where search = search and w = "worldAt search kw config w k",
          OF le search_pageAt assms(3) sc])
  finally show ?thesis by (simp add: getBlogRank_def)
qed

lemma getBlogRank_short:
  assumes "\<forall>i<k. fullMiss lc (urlPatternOf blogId) (pageAt search kw config w i)" and "k < 10"
    and "itemsOf (pageAt search kw config w k) = Some xs" and "length xs < PAGE_SIZE"
    and "list_all (\<lambda>x. \<not> itemMatches lc (urlPatternOf blogId) x) xs"
  shows "getBlogRank search lc kw blogId config onLog w lg
       = (None, lg, worldAt search kw config w (Suc k))"
proof -
  have le: "PAGE_SIZE * k + 1 \<le> MAX_RESULTS" using assms(2) by simp
  note sc = scanItems_miss [OF assms(5), of "int (PAGE_SIZE * k)"]
  have "pageLoop search lc kw (urlPatternOf blogId) config 1 0 w
      = pageLoop search lc kw (urlPatternOf blogId) config (PAGE_SIZE * k + 1) (int (PAGE_SIZE * k))
          (worldAt search kw config w k)"
    using assms(1,2) by (intro pageLoop_prefix) auto
  also have "\<dots> = (Inr None, worldAt search kw config w (Suc k))"
    by (rule pageLoop_short [where search = search and w = "worldAt search kw config w k",
          OF le search_pageAt assms(3) sc assms(4)])
  finally show ?thesis by (simp add: getBlogRank_def)
qed

lemma getBlogRank_exhausted:
  assumes "\<forall>i<10. fullMiss lc (urlPatternOf blogId) (pageAt search kw config w i)"
  shows "getBlogRank search lc kw blogId config onLog w lg
       = (None, lg, worldAt search kw config w 10)"
proof -
  have "pageLoop search lc kw (urlPatternOf blogId) config 1 0 w
      = pageLoop search lc kw (urlPatternOf blogId) config (PAGE_SIZE * 10 + 1) (int (PAGE_SIZE * 10))
          (worldAt search kw config w 10)"
    using assms by (intro pageLoop_prefix) auto
  also have "\<dots> = (Inr None, worldAt search kw config w 10)"
    by (rule pageLoop_beyond) simp
  finally show ?thesis by (simp add: getBlogRank_def)
qed

lemma getBlogRank_failed:
  assumes "\<forall>i<k. fullMiss lc (urlPatternOf blogId) (pageAt search kw config w i)" and "k < 10"
    and "pageAt search kw config w k = Failed err"
  shows "getBlogRank search lc kw blogId config onLog w lg
       = (None, emit onLog (RankLookupError kw err) lg, worldAt search kw config w (Suc k))"
proof -
  have le: "PAGE_SIZE * k + 1 \<le> MAX_RESULTS" using assms(2) by simp
  have "pageLoop search lc kw (urlPatternOf blogId) config 1 0 w
      = pageLoop search lc kw (urlPatternOf blogId) config (PAGE_SIZE * k + 1) (int (PAGE_SIZE * k))
          (worldAt search kw config w k)"
    using assms(1,2) by (intro pageLoop_prefix) auto
  also have "\<dots> = (Inl err, worldAt search kw config w (Suc k))"
    by (rule pageLoop_Failed [where search = search and w = "worldAt search kw config w k", OF le])
       (simp only: search_pageAt assms(3))
  finally show ?thesis by (simp add: getBlogRank_def)
qed

lemma pageLoop_bound:
  "\<forall>w rq xs. fst (search w rq) = Page (Some xs) \<longrightarrow> length xs \<le> PAGE_SIZE \<Longrightarrow>
   int st = rk + 1 \<Longrightarrow> st mod 10 = 1 \<Longrightarrow>
   fst (pageLoop search lc kw pat config st rk w) = Inr (Some r) \<Longrightarrow> 1 \<le> r \<and> r \<le> 100"
proof (induction search lc kw pat config st rk w rule: pageLoop.induct)
  case (1 search lc kw pat config st rk w)
  note atMost = "1.prems"(1)
  note prems = "1.prems"(2-)
  show ?case
  proof (cases "st \<le> MAX_RESULTS")
    case False
    with prems(3) show ?thesis by (simp add: pageLoop_beyond)
  next
    case le: True
    with prems(2) have st91: "st \<le> 91" by presburger
    obtain resp w' where s: "search w (request kw config st) = (resp, w')"
      by (cases "search w (request kw config st)")
    show ?thesis
    proof (cases "itemsOf resp")
      case None
      then obtain e where "resp = Failed e" by (auto simp: itemsOf_def split: Response.splits option.splits)
      with prems(3) s le show ?thesis by (simp add: pageLoop_Failed)
    next
      case (Some xs)
      have len: "length xs \<le> 10"
      proof (cases resp)
        case (Failed e) with Some show ?thesis by (simp add: itemsOf_def)
      next
        case (Page its)
        show ?thesis
        proof (cases its)
          case None with Page Some show ?thesis by (simp add: itemsOf_def)
        next
          case (Some ys)
          with Page \<open>itemsOf resp = Some xs\<close> have "xs = ys" by (simp add: itemsOf_def)
          moreover have "fst (search w (request kw config st)) = Page (Some ys)"
            using s Page Some by simp
          then have "length ys \<le> PAGE_SIZE"
            using atMost by blast
          ultimately show ?thesis by simp
        qed
      qed
      show ?thesis
      proof (cases "scanItems lc pat xs rk")
        case (Return r')
        with prems(3) s le Some have "r = r'" by (simp add: pageLoop_Return)
        moreover from prems(2) have "1 \<le> st" by presburger
        ultimately show ?thesis
          using scanItems_Return_bounds [OF Return] len st91 prems(1) by linarith
      next
        case (Continue rk')
        note c = scanItems_Continue [OF Continue]
        show ?thesis
        proof (cases "length xs < PAGE_SIZE")
          case True
          with prems(3) s le Some Continue show ?thesis by (simp add: pageLoop_short)
        next
          case False
          with len have l10: "length xs = 10" by simp
          have eq: "pageLoop search lc kw pat config st rk w
                  = pageLoop search lc kw pat config (st + PAGE_SIZE) rk' w'"
            by (rule pageLoop_next [where search = search and w = w, OF le s Some Continue False])
          have its: "(case resp of Failed e \<Rightarrow> None | Page its \<Rightarrow> Some (case its of None \<Rightarrow> [] | Some xs \<Rightarrow> xs)) = Some xs"
            using Some by (auto simp: itemsOf_def split: Response.splits option.splits)
          then obtain its' where p: "resp = Page its'" and xs: "xs = (case its' of None \<Rightarrow> [] | Some xs \<Rightarrow> xs)"
            by (auto split: Response.splits)
          show ?thesis
          proof (rule "1.IH" [OF le s [symmetric] p xs Continue False atMost])
            show "int (st + PAGE_SIZE) = rk' + 1" using c l10 prems(1) by simp
            show "(st + PAGE_SIZE) mod PAGE_SIZE = 1" using prems(2) by simp
            show "fst (pageLoop search lc kw pat config (st + PAGE_SIZE) rk' w') = Inr (Some r)"
              using prems(3) eq by simp
          qed
        qed
      qed
    qed
  qed
qed


lemma hitItem_matches: "itemMatches asciiLower (urlPatternOf (ascii ''abc'')) hitItem"
  by (simp add: itemMatches_def hitItem_def ascii_def asciiLower_def)

lemma missItem_misses: "\<not> itemMatches asciiLower (urlPatternOf (ascii ''abc'')) missItem"
  by (simp add: itemMatches_def missItem_def ascii_def asciiLower_def)

lemma straddleItem_matches: "itemMatches asciiLower (urlPatternOf (ascii ''abc'')) straddleItem"
  by (simp add: itemMatches_def straddleItem_def ascii_def asciiLower_def)

lemma straddleItem_parts:
  "\<not> linkOrOwnerContains asciiLower (urlPatternOf (ascii ''abc'')) straddleItem"
  by (simp add: linkOrOwnerContains_def straddleItem_def ascii_def asciiLower_def)

lemma hitItem_parts:
  "linkOrOwnerContains asciiLower (urlPatternOf (ascii ''abc'')) hitItem"
  by (simp add: linkOrOwnerContains_def hitItem_def ascii_def asciiLower_def)

text \<open>
  C2, amended. If no page holds more than ten items, the rank returned by \<open>getBlogRank\<close>
  is null or an integer from 1 to 100. The probe asks for the pages at offsets 1, 11,
  ..., 91 and counts items across them: when the first \<open>k < 10\<close> pages are full and
  without a match and item \<open>j\<close> (from 0) is the first on page \<open>k\<close> for which the
  concatenation of link and owner link, each empty when absent, contains the pattern
  \<open>blog.naver.com/{blogId}\<close> after both are lower-cased, the result is \<open>10 * k + j + 1\<close>;
  a page with fewer than ten items and no match ends the probe with null, and so do ten
  full pages without a match.
\<close>

theorem getBlogRank_running_counter:
  assumes "\<forall>w rq xs. fst (search w rq) = Page (Some xs) \<longrightarrow> length xs \<le> PAGE_SIZE"
  shows
    "(case fst (getBlogRank search lc kw blogId config onLog w lg) of
        None \<Rightarrow> True
      | Some r \<Rightarrow> 1 \<le> r \<and> r \<le> 100)
     \<and> (\<forall>k j xs.
           k < 10 \<and> (\<forall>i<k. fullMiss lc (urlPatternOf blogId) (pageAt search kw config w i))
           \<and> itemsOf (pageAt search kw config w k) = Some xs
           \<and> j < length xs \<and> itemMatches lc (urlPatternOf blogId) (xs ! j)
           \<and> (\<forall>i<j. \<not> itemMatches lc (urlPatternOf blogId) (xs ! i))
           \<longrightarrow> fst (getBlogRank search lc kw blogId config onLog w lg)
                 = Some (int (PAGE_SIZE * k + j + 1)))
     \<and> (\<forall>k xs.
           k < 10 \<and> (\<forall>i<k. fullMiss lc (urlPatternOf blogId) (pageAt search kw config w i))
           \<and> itemsOf (pageAt search kw config w k) = Some xs
           \<and> length xs < PAGE_SIZE \<and> list_all (\<lambda>x. \<not> itemMatches lc (urlPatternOf blogId) x) xs
           \<longrightarrow> fst (getBlogRank search lc kw blogId config onLog w lg) = None)
     \<and> ((\<forall>i<10. fullMiss lc (urlPatternOf blogId) (pageAt search kw config w i))
           \<longrightarrow> fst (getBlogRank search lc kw blogId config onLog w lg) = None)"
proof -
  have bound: "case fst (getBlogRank search lc kw blogId config onLog w lg) of
        None \<Rightarrow> True
      | Some r \<Rightarrow> 1 \<le> r \<and> r \<le> 100"
  proof (cases "pageLoop search lc kw (urlPatternOf blogId) config 1 0 w")
    case (Pair res w')
    show ?thesis
    proof (cases res)
      case (Inl e)
      with Pair show ?thesis by (simp add: getBlogRank_def)
    next
      case (Inr r)
      show ?thesis
      proof (cases r)
        case None
        with Pair Inr show ?thesis by (simp add: getBlogRank_def)
      next
        case (Some n)
        with Pair Inr have "fst (pageLoop search lc kw (urlPatternOf blogId) config 1 0 w) = Inr (Some n)"
          by simp
        from pageLoop_bound [OF assms _ _ this] have "1 \<le> n \<and> n \<le> 100" by simp
        with Pair Inr Some show ?thesis by (simp add: getBlogRank_def)
      qed
    qed
  qed
  have hit: "fst (getBlogRank search lc kw blogId config onLog w lg) = Some (int (PAGE_SIZE * k + j + 1))"
    if "k < 10 \<and> (\<forall>i<k. fullMiss lc (urlPatternOf blogId) (pageAt search kw config w i))
        \<and> itemsOf (pageAt search kw config w k) = Some xs
        \<and> j < length xs \<and> itemMatches lc (urlPatternOf blogId) (xs ! j)
        \<and> (\<forall>i<j. \<not> itemMatches lc (urlPatternOf blogId) (xs ! i))" for k j xs
    using that getBlogRank_hit [of k lc blogId search kw config w xs j onLog lg] by simp
  have short: "fst (getBlogRank search lc kw blogId config onLog w lg) = None"
    if "k < 10 \<and> (\<forall>i<k. fullMiss lc (urlPatternOf blogId) (pageAt search kw config w i))
        \<and> itemsOf (pageAt search kw config w k) = Some xs
        \<and> length xs < PAGE_SIZE \<and> list_all (\<lambda>x. \<not> itemMatches lc (urlPatternOf blogId) x) xs"
    for k xs
    using that getBlogRank_short [of k lc blogId search kw config w xs onLog lg] by simp
  have exhausted: "fst (getBlogRank search lc kw blogId config onLog w lg) = None"
    if "\<forall>i<10. fullMiss lc (urlPatternOf blogId) (pageAt search kw config w i)"
    using that getBlogRank_exhausted [of lc blogId search kw config w onLog lg] by simp
  from bound hit short exhausted show ?thesis by blast
qed

lemma pageAt_tenthApi: "pageAt tenthApi kw config w i = Page (Some (replicate 9 missItem @ [hitItem]))"
  by (simp add: pageAt_def tenthApi_def)

lemma pageAt_secondPageApi:
  "pageAt secondPageApi kw config w i
     = (if i = 0 then Page (Some (replicate 10 missItem)) else Page (Some [hitItem]))"
  by (simp add: pageAt_def secondPageApi_def request_def)

lemma pageAt_shortApi: "pageAt shortApi kw config w i = Page (Some [missItem])"
  by (simp add: pageAt_def shortApi_def)

lemma pageAt_fullApi: "pageAt fullApi kw config w i = Page (Some (replicate 10 missItem))"
  by (simp add: pageAt_def fullApi_def)

lemma pageAt_failApi: "pageAt failApi kw config w i = Failed ()"
  by (simp add: pageAt_def failApi_def)

lemma pageAt_straddleApi: "pageAt straddleApi kw config w i = Page (Some [straddleItem, hitItem])"
  by (simp add: pageAt_def straddleApi_def)

text \<open>
  The tenth item of the first page gives 10, the first item of the second page gives 11,
  a short page without a match and a hundred items without a match give null.
\<close>

theorem getBlogRank_running_counter_witness:
  "fst (getBlogRank tenthApi asciiLower (ascii ''kw'') (ascii ''abc'') sampleConfig True () []) = Some 10
   \<and> fst (getBlogRank secondPageApi asciiLower (ascii ''kw'') (ascii ''abc'') sampleConfig True () []) = Some 11
   \<and> fst (getBlogRank shortApi asciiLower (ascii ''kw'') (ascii ''abc'') sampleConfig True () []) = None
   \<and> fst (getBlogRank fullApi asciiLower (ascii ''kw'') (ascii ''abc'') sampleConfig True () []) = None"
proof -
  note m = hitItem_matches missItem_misses
  have t: "\<forall>w rq xs. fst (tenthApi w rq) = Page (Some xs) \<longrightarrow> length xs \<le> PAGE_SIZE"
    by (auto simp: tenthApi_def)
  have s: "\<forall>w rq xs. fst (secondPageApi w rq) = Page (Some xs) \<longrightarrow> length xs \<le> PAGE_SIZE"
    by (auto simp: secondPageApi_def)
  have h: "\<forall>w rq xs. fst (shortApi w rq) = Page (Some xs) \<longrightarrow> length xs \<le> PAGE_SIZE"
    by (auto simp: shortApi_def)
  have f: "\<forall>w rq xs. fst (fullApi w rq) = Page (Some xs) \<longrightarrow> length xs \<le> PAGE_SIZE"
    by (auto simp: fullApi_def)
  have "fst (getBlogRank tenthApi asciiLower (ascii ''kw'') (ascii ''abc'') sampleConfig True () []) = Some 10"
    using getBlogRank_running_counter [OF t, of asciiLower "ascii ''kw''" "ascii ''abc''" sampleConfig True "()" "[]",
        THEN conjunct2, THEN conjunct1, rule_format, of 0 "replicate 9 missItem @ [hitItem]" 9]
    by (simp add: pageAt_tenthApi itemsOf_def m nth_append)
  moreover
  have "fst (getBlogRank secondPageApi asciiLower (ascii ''kw'') (ascii ''abc'') sampleConfig True () []) = Some 11"
    using getBlogRank_running_counter [OF s, of asciiLower "ascii ''kw''" "ascii ''abc''" sampleConfig True "()" "[]",
        THEN conjunct2, THEN conjunct1, rule_format, of 1 "[hitItem]" 0]
    by (simp add: pageAt_secondPageApi itemsOf_def fullMiss_def m list_all_iff)
  moreover
  have "fst (getBlogRank shortApi asciiLower (ascii ''kw'') (ascii ''abc'') sampleConfig True () []) = None"
    using getBlogRank_running_counter [OF h, of asciiLower "ascii ''kw''" "ascii ''abc''" sampleConfig True "()" "[]",
        THEN conjunct2, THEN conjunct2, THEN conjunct1, rule_format, of 0 "[missItem]"]
    by (simp add: pageAt_shortApi itemsOf_def m)
  moreover
  have "fst (getBlogRank fullApi asciiLower (ascii ''kw'') (ascii ''abc'') sampleConfig True () []) = None"
    using getBlogRank_running_counter [OF f, of asciiLower "ascii ''kw''" "ascii ''abc''" sampleConfig True "()" "[]",
        THEN conjunct2, THEN conjunct2, THEN conjunct2]
    by (simp add: pageAt_fullApi itemsOf_def fullMiss_def m list_all_iff)
  ultimately show ?thesis by simp
qed

text \<open>
  C2 as stated fails: on a page whose first item has a link that ends in
  \<open>blog.naver\<close> and an owner link that begins with \<open>.com/abc\<close>, neither field contains
  the pattern, the second item's link does, and the probe returns 1, not 2.
\<close>

theorem getBlogRank_link_or_owner_counterexample:
  "\<not> linkOrOwnerContains asciiLower (urlPatternOf (ascii ''abc'')) straddleItem
   \<and> linkOrOwnerContains asciiLower (urlPatternOf (ascii ''abc'')) hitItem
   \<and> fst (getBlogRank straddleApi asciiLower (ascii ''kw'') (ascii ''abc'') sampleConfig True () [])
       = Some 1"
proof -
  have "getBlogRank straddleApi asciiLower (ascii ''kw'') (ascii ''abc'') sampleConfig True () []
      = (Some (int (PAGE_SIZE * 0 + 0 + 1)), [], worldAt straddleApi (ascii ''kw'') sampleConfig () (Suc 0))"
    by (rule getBlogRank_hit [where xs = "[straddleItem, hitItem]"])
       (simp_all add: pageAt_straddleApi itemsOf_def straddleItem_matches)
  then show ?thesis by (simp add: straddleItem_parts hitItem_parts)
qed


section \<open>Orchestration\<close>

lemma probePool_keywords:
  "map keyword (fst (probePool search lc blogId config pl acc w lg)) = map keyword acc @ pl"
  by (induction pl arbitrary: acc w lg) (auto split: prod.splits)

lemma probePool_all_failed:
  "\<forall>w rq. \<exists>e. fst (search w rq) = Failed e \<Longrightarrow> list_all (\<lambda>x. rank x = None) acc \<Longrightarrow>
   list_all (\<lambda>x. rank x = None) (fst (probePool search lc blogId config pl acc w lg))"
proof (induction pl arbitrary: acc w lg)
  case Nil
  then show ?case by simp
next
  case (Cons kw pl)
  obtain rk lg' w' where g: "getBlogRank search lc kw blogId config True w (lg @ [Probing kw]) = (rk, lg', w')"
    by (cases "getBlogRank search lc kw blogId config True w (lg @ [Probing kw])") auto
  from Cons.prems(1) obtain e where "pageAt search kw config w 0 = Failed e"
    unfolding pageAt_def by (metis mult_zero_right add_0 worldAt.simps(1))
  then have "fst (getBlogRank search lc kw blogId config True w (lg @ [Probing kw])) = None"
    using getBlogRank_failed [of 0 lc blogId search kw config w e] by simp
  with g have "rk = None" by simp
  with Cons g show ?case by simp
qed

lemma analyzeBlogPosts_fields:
  assumes "r = fst (analyzeBlogPosts search lc title content blogId config w lg)"
  shows "hashtags r = extractHashtags content"
    and "smartKeywords r = extractSmartKeywords title content (extractHashtags content)"
    and "pool r = mergeKeywordPool (extractHashtags content)
                 (extractSmartKeywords title content (extractHashtags content))"
    and "bestKeyword r = map_option keyword (best (ranks r))"
    and "bestRank r = (case best (ranks r) of None \<Rightarrow> None | Some b \<Rightarrow> rank b)"
    and "otherGoodKeywords r = otherGood (ranks r)"
    and "finalKeyword r = bestKeyword r"
    and "searchVolume r = None"
  unfolding assms by (simp_all add: analyzeBlogPosts_def Let_def split: prod.split)

lemma analyzeBlogPosts_probes:
  "\<exists>lg3 lg6 w1.
     titleRank (fst (analyzeBlogPosts search lc title content blogId config w lg))
       = fst (getBlogRank search lc title blogId config True w lg3)
     \<and> ranks (fst (analyzeBlogPosts search lc title content blogId config w lg))
       = fst (probePool search lc blogId config
           (mergeKeywordPool (extractHashtags content)
              (extractSmartKeywords title content (extractHashtags content))) [] w1 lg6)"
  by (auto simp: analyzeBlogPosts_def Let_def split: prod.splits) (metis fst_conv)+


lemma RankEntry_list_eq:
  fixes xs ys :: "RankEntry list"
  shows "map keyword xs = map keyword ys \<Longrightarrow> map rank xs = map rank ys \<Longrightarrow> xs = ys"
proof (induction xs arbitrary: ys)
  case Nil
  then show ?case by simp
next
  case (Cons x xs)
  then obtain y ys' where ys: "ys = y # ys'" by (cases ys) auto
  with Cons.prems have "keyword x = keyword y" "rank x = rank y" by auto
  then have "x = y" by simp
  with Cons ys show ?case by auto
qed

lemma analyzeBlogPosts_keywords:
  "map keyword (ranks (fst (analyzeBlogPosts search lc title content blogId config w lg)))
     = pool (fst (analyzeBlogPosts search lc title content blogId config w lg))"
proof -
  obtain lg3 lg6 w1 where
    "ranks (fst (analyzeBlogPosts search lc title content blogId config w lg))
       = fst (probePool search lc blogId config
           (mergeKeywordPool (extractHashtags content)
              (extractSmartKeywords title content (extractHashtags content))) [] w1 lg6)"
    using analyzeBlogPosts_probes [of search lc title content blogId config w lg] by blast
  moreover have "pool (fst (analyzeBlogPosts search lc title content blogId config w lg))
      = mergeKeywordPool (extractHashtags content)
              (extractSmartKeywords title content (extractHashtags content))"
    by (rule analyzeBlogPosts_fields(3) [OF refl])
  ultimately show ?thesis by (simp add: probePool_keywords)
qed

text \<open>
  C6. When the \<open>try\<close> block of \<open>getBlogRank\<close> throws \<open>err\<close>, as it does when a call
  of the search API fails before a result is reached, the probe returns null and
  appends the one line for that error to the log; a probe appends nothing else. The
  failure does not leave \<open>getBlogRank\<close>: \<open>analyzeBlogPosts\<close> returns a result with one
  entry for every member of the pool whatever the API does, and when every call fails the
  title rank and all ranks are null.
\<close>

theorem getBlogRank_error_degrades:
  "(fst (pageLoop search lc kw (urlPatternOf blogId) config 1 0 w) = Inl err \<longrightarrow>
      getBlogRank search lc kw blogId config True w lg
        = (None, lg @ [RankLookupError kw err],
           snd (pageLoop search lc kw (urlPatternOf blogId) config 1 0 w)))
   \<and> (\<forall>k. k < 10 \<and> (\<forall>i<k. fullMiss lc (urlPatternOf blogId) (pageAt search kw config w i))
          \<and> pageAt search kw config w k = Failed err
        \<longrightarrow> getBlogRank search lc kw blogId config True w lg
              = (None, lg @ [RankLookupError kw err], worldAt search kw config w (Suc k)))
   \<and> (fst (snd (getBlogRank search lc kw blogId config True w lg)) = lg
        \<or> fst (getBlogRank search lc kw blogId config True w lg) = None
          \<and> (\<exists>e. fst (snd (getBlogRank search lc kw blogId config True w lg))
                   = lg @ [RankLookupError kw e]))
   \<and> map keyword (ranks (fst (analyzeBlogPosts search lc title content blogId config w lg)))
        = pool (fst (analyzeBlogPosts search lc title content blogId config w lg))
   \<and> ((\<forall>w' rq. \<exists>e. fst (search w' rq) = Failed e) \<longrightarrow>
         titleRank (fst (analyzeBlogPosts search lc title content blogId config w lg)) = None
         \<and> list_all (\<lambda>x. rank x = None)
              (ranks (fst (analyzeBlogPosts search lc title content blogId config w lg))))"
proof (intro conjI)
  show "fst (pageLoop search lc kw (urlPatternOf blogId) config 1 0 w) = Inl err \<longrightarrow>
      getBlogRank search lc kw blogId config True w lg
        = (None, lg @ [RankLookupError kw err],
           snd (pageLoop search lc kw (urlPatternOf blogId) config 1 0 w))"
  proof (rule impI, cases "pageLoop search lc kw (urlPatternOf blogId) config 1 0 w")
    case (Pair res w')
    assume "fst (pageLoop search lc kw (urlPatternOf blogId) config 1 0 w) = Inl err"
    with Pair show "getBlogRank search lc kw blogId config True w lg
        = (None, lg @ [RankLookupError kw err],
           snd (pageLoop search lc kw (urlPatternOf blogId) config 1 0 w))"
      by (simp add: getBlogRank_def emit_def)
  qed
next
  show "\<forall>k. k < 10 \<and> (\<forall>i<k. fullMiss lc (urlPatternOf blogId) (pageAt search kw config w i))
          \<and> pageAt search kw config w k = Failed err
        \<longrightarrow> getBlogRank search lc kw blogId config True w lg
              = (None, lg @ [RankLookupError kw err], worldAt search kw config w (Suc k))"
  proof (intro allI impI, elim conjE)
    fix k
    assume k: "k < 10" "\<forall>i<k. fullMiss lc (urlPatternOf blogId) (pageAt search kw config w i)"
      "pageAt search kw config w k = Failed err"
    have "getBlogRank search lc kw blogId config True w lg
        = (None, emit True (RankLookupError kw err) lg, worldAt search kw config w (Suc k))"
      by (rule getBlogRank_failed [OF k(2,1,3)])
    then show "getBlogRank search lc kw blogId config True w lg
        = (None, lg @ [RankLookupError kw err], worldAt search kw config w (Suc k))"
      by (simp only: emit_def if_True)
  qed
next
  show "fst (snd (getBlogRank search lc kw blogId config True w lg)) = lg
        \<or> fst (getBlogRank search lc kw blogId config True w lg) = None
          \<and> (\<exists>e. fst (snd (getBlogRank search lc kw blogId config True w lg))
                   = lg @ [RankLookupError kw e])"
  proof (cases "pageLoop search lc kw (urlPatternOf blogId) config 1 0 w")
    case (Pair res w')
    then show ?thesis by (cases res) (simp_all add: getBlogRank_def emit_def)
  qed
next
  show "map keyword (ranks (fst (analyzeBlogPosts search lc title content blogId config w lg)))
        = pool (fst (analyzeBlogPosts search lc title content blogId config w lg))"
    by (rule analyzeBlogPosts_keywords)
next
  show "(\<forall>w' rq. \<exists>e. fst (search w' rq) = Failed e) \<longrightarrow>
         titleRank (fst (analyzeBlogPosts search lc title content blogId config w lg)) = None
         \<and> list_all (\<lambda>x. rank x = None)
              (ranks (fst (analyzeBlogPosts search lc title content blogId config w lg)))"
  proof (rule impI)
    assume f: "\<forall>w' rq. \<exists>e. fst (search w' rq) = Failed e"
    obtain lg3 lg6 w1 where p:
      "titleRank (fst (analyzeBlogPosts search lc title content blogId config w lg))
         = fst (getBlogRank search lc title blogId config True w lg3)"
      "ranks (fst (analyzeBlogPosts search lc title content blogId config w lg))
         = fst (probePool search lc blogId config
             (mergeKeywordPool (extractHashtags content)
                (extractSmartKeywords title content (extractHashtags content))) [] w1 lg6)"
      using analyzeBlogPosts_probes [of search lc title content blogId config w lg] by blast
    from f obtain e where "pageAt search title config w 0 = Failed e"
      unfolding pageAt_def by (metis mult_zero_right add_0 worldAt.simps(1))
    then have "fst (getBlogRank search lc title blogId config True w lg3) = None"
      using getBlogRank_failed [of 0 lc blogId search title config w e] by simp
    moreover have "list_all (\<lambda>x. rank x = None)
       (fst (probePool search lc blogId config
             (mergeKeywordPool (extractHashtags content)
                (extractSmartKeywords title content (extractHashtags content))) [] w1 lg6))"
      by (rule probePool_all_failed [OF f]) simp
    ultimately show "titleRank (fst (analyzeBlogPosts search lc title content blogId config w lg)) = None
         \<and> list_all (\<lambda>x. rank x = None)
              (ranks (fst (analyzeBlogPosts search lc title content blogId config w lg)))"
      by (simp only: p simp_thms)
  qed
qed

theorem getBlogRank_error_degrades_witness:
  "getBlogRank failApi asciiLower (ascii ''kw'') (ascii ''abc'') sampleConfig True () []
     = (None, [RankLookupError (ascii ''kw'') ()], ())
   \<and> titleRank (fst (analyzeBlogPosts failApi asciiLower (ascii ''t'') (ascii ''#a'')
        (ascii ''abc'') sampleConfig () [])) = None
   \<and> list_all (\<lambda>x. rank x = None) (ranks (fst (analyzeBlogPosts failApi asciiLower (ascii ''t'')
        (ascii ''#a'') (ascii ''abc'') sampleConfig () [])))"
proof -
  have f: "\<forall>w' rq. \<exists>e. fst (failApi w' rq) = Failed e"
    by (simp add: failApi_def)
  note t = getBlogRank_error_degrades [of failApi asciiLower "ascii ''kw''" "ascii ''abc''"
      sampleConfig "()" "()" "[]" "ascii ''t''" "ascii ''#a''"]
  have "getBlogRank failApi asciiLower (ascii ''kw'') (ascii ''abc'') sampleConfig True () []
     = (None, [RankLookupError (ascii ''kw'') ()], ())"
    using t [THEN conjunct2, THEN conjunct1, rule_format, of 0]
    by (simp add: pageAt_failApi)
  with t f show ?thesis by blast
qed

text \<open>
  C8. Two runs of \<open>analyzeBlogPosts\<close> on the same title, content and blog, against any two
  APIs, configurations and logs: if the probes of the pool return the same ranks, the
  second result is the first with the field \<open>titleRank\<close> replaced, so the best keyword,
  the best rank, the other good keywords and the final keyword agree.
\<close>

theorem analyzeBlogPosts_titleRank_diagnostic:
  "map rank (ranks (fst (analyzeBlogPosts search1 lc title content blogId config1 w1 lg1)))
     = map rank (ranks (fst (analyzeBlogPosts search2 lc title content blogId config2 w2 lg2)))
   \<Longrightarrow>
   fst (analyzeBlogPosts search2 lc title content blogId config2 w2 lg2)
     = (fst (analyzeBlogPosts search1 lc title content blogId config1 w1 lg1))
         \<lparr>titleRank := titleRank (fst (analyzeBlogPosts search2 lc title content blogId config2 w2 lg2))\<rparr>
   \<and> bestKeyword (fst (analyzeBlogPosts search1 lc title content blogId config1 w1 lg1))
       = bestKeyword (fst (analyzeBlogPosts search2 lc title content blogId config2 w2 lg2))
   \<and> bestRank (fst (analyzeBlogPosts search1 lc title content blogId config1 w1 lg1))
       = bestRank (fst (analyzeBlogPosts search2 lc title content blogId config2 w2 lg2))
   \<and> otherGoodKeywords (fst (analyzeBlogPosts search1 lc title content blogId config1 w1 lg1))
       = otherGoodKeywords (fst (analyzeBlogPosts search2 lc title content blogId config2 w2 lg2))
   \<and> finalKeyword (fst (analyzeBlogPosts search1 lc title content blogId config1 w1 lg1))
       = finalKeyword (fst (analyzeBlogPosts search2 lc title content blogId config2 w2 lg2))"
proof -
  define r1 where "r1 = fst (analyzeBlogPosts search1 lc title content blogId config1 w1 lg1)"
  define r2 where "r2 = fst (analyzeBlogPosts search2 lc title content blogId config2 w2 lg2)"
  assume "map rank (ranks (fst (analyzeBlogPosts search1 lc title content blogId config1 w1 lg1)))
     = map rank (ranks (fst (analyzeBlogPosts search2 lc title content blogId config2 w2 lg2)))"
  then have mr: "map rank (ranks r1) = map rank (ranks r2)" by (simp add: r1_def r2_def)
  note f1 = analyzeBlogPosts_fields [OF r1_def]
  note f2 = analyzeBlogPosts_fields [OF r2_def]
  have "pool r1 = pool r2"
    by (simp add: f1(3) f2(3))
  then have "map keyword (ranks r1) = map keyword (ranks r2)"
    using analyzeBlogPosts_keywords [of search1 lc title content blogId config1 w1 lg1]
      analyzeBlogPosts_keywords [of search2 lc title content blogId config2 w2 lg2]
    by (simp add: r1_def r2_def)
  from this mr have eq: "ranks r1 = ranks r2" by (rule RankEntry_list_eq)
  have "r2 = r1\<lparr>titleRank := titleRank r2\<rparr>"
    by (rule AnalysisFinalResult.equality) (simp_all add: f1 f2 eq)
  moreover have "bestKeyword r1 = bestKeyword r2" "bestRank r1 = bestRank r2"
    "otherGoodKeywords r1 = otherGoodKeywords r2" "finalKeyword r1 = finalKeyword r2"
    by (simp_all add: f1 f2 eq)
  ultimately show ?thesis unfolding r1_def r2_def by blast
qed

text \<open>
  C10. The result of \<open>analyzeBlogPosts\<close> has \<open>searchVolume\<close> null for every input and
  every behaviour of the search API; the orchestrator makes no call but those of the rank
  probes.
\<close>

theorem analyzeBlogPosts_searchVolume_null:
  "searchVolume (fst (analyzeBlogPosts search lc title content blogId config w lg)) = None"
  by (rule analyzeBlogPosts_fields(8) [OF refl])


section \<open>Best keyword\<close>

lemma find_filter_hd: "find P xs = (case filter P xs of [] \<Rightarrow> None | x # _ \<Rightarrow> Some x)"
  by (induction xs) auto

lemma ranked_Nil: "list_all (\<lambda>e. rank e = None) rs \<Longrightarrow> ranked rs = []"
  by (induction rs) (auto simp: ranked_def)

lemma best_find:
  "best rs = find (\<lambda>x. rank x \<noteq> None \<and> (\<forall>y \<in> set rs. rank y \<noteq> None \<longrightarrow> rankNum x \<le> rankNum y)) rs"
proof (cases "ranked rs")
  case Nil
  then have "filter (\<lambda>r. rank r \<noteq> None) rs = []"
    unfolding ranked_def by (metis length_0_conv length_sort)
  then have "\<forall>x \<in> set rs. rank x = None"
    by (simp add: filter_empty_conv)
  then have "find (\<lambda>x. rank x \<noteq> None \<and> (\<forall>y \<in> set rs. rank y \<noteq> None \<longrightarrow> rankNum x \<le> rankNum y)) rs = None"
    by (simp add: find_None_iff)
  with Nil show ?thesis by (simp add: best_def)
next
  case (Cons b ys)
  define nn where "nn = filter (\<lambda>r. rank r \<noteq> None) rs"
  have srt: "sort_key rankNum nn = b # ys" using Cons by (simp add: ranked_def nn_def)
  have "sorted (map rankNum (sort_key rankNum nn))" by (rule sorted_sort_key)
  with srt have "\<forall>y \<in> set (b # ys). rankNum b \<le> rankNum y" by auto
  then have min: "\<forall>y \<in> set nn. rankNum b \<le> rankNum y"
    using set_sort [of rankNum nn] srt by metis
  have "b \<in> set nn" using set_sort [of rankNum nn] srt by (metis list.set_intros(1))
  have "find (\<lambda>x. rank x \<noteq> None \<and> (\<forall>y \<in> set rs. rank y \<noteq> None \<longrightarrow> rankNum x \<le> rankNum y)) rs
      = find (\<lambda>x. rank x \<noteq> None \<and> rankNum x = rankNum b) rs"
  proof (rule find_cong [OF refl])
    fix x assume "x \<in> set rs"
    show "(rank x \<noteq> None \<and> (\<forall>y \<in> set rs. rank y \<noteq> None \<longrightarrow> rankNum x \<le> rankNum y))
        = (rank x \<noteq> None \<and> rankNum x = rankNum b)"
      using min \<open>b \<in> set nn\<close> \<open>x \<in> set rs\<close> unfolding nn_def by fastforce
  qed
  also have "\<dots> = (case filter (\<lambda>x. rankNum x = rankNum b) nn of [] \<Rightarrow> None | x # _ \<Rightarrow> Some x)"
    by (simp add: find_filter_hd nn_def conj_commute)
  also have "filter (\<lambda>x. rankNum x = rankNum b) nn = filter (\<lambda>x. rankNum x = rankNum b) (sort_key rankNum nn)"
    by (rule sort_key_stable [symmetric])
  also have "(case filter (\<lambda>x. rankNum x = rankNum b) (sort_key rankNum nn) of [] \<Rightarrow> None | x # _ \<Rightarrow> Some x) = Some b"
    by (simp add: srt)
  finally show ?thesis using Cons by (simp add: best_def)
qed

lemma best_earliest_minimum:
  assumes "\<not> list_all (\<lambda>e. rank e = None) rs"
  shows "\<exists>i m. i < length rs \<and> rank (rs ! i) = Some m
           \<and> (\<forall>j n. j < length rs \<and> rank (rs ! j) = Some n \<longrightarrow> m \<le> n \<and> (j < i \<longrightarrow> m < n))
           \<and> best rs = Some (rs ! i)"
proof -
  let ?P = "\<lambda>x. rank x \<noteq> None \<and> (\<forall>y \<in> set rs. rank y \<noteq> None \<longrightarrow> rankNum x \<le> rankNum y)"
  from assms have "ranked rs \<noteq> []"
    unfolding ranked_def by (metis filter_empty_conv length_0_conv length_sort list_all_iff)
  then obtain b where b: "best rs = Some b" by (cases "ranked rs") (auto simp: best_def)
  then have "find ?P rs = Some b" by (simp add: best_find)
  then obtain i where i: "i < length rs" "?P (rs ! i)" "b = rs ! i" "\<forall>j<i. \<not> ?P (rs ! j)"
    unfolding find_Some_iff by blast
  from i(2) obtain m where m: "rank (rs ! i) = Some m" by auto
  have "m \<le> n \<and> (j < i \<longrightarrow> m < n)" if jn: "j < length rs \<and> rank (rs ! j) = Some n" for j n
  proof
    from jn i(2) m show "m \<le> n" by (auto simp: rankNum_def dest!: bspec [where x = "rs ! j"])
    show "j < i \<longrightarrow> m < n"
    proof
      assume "j < i"
      with i(4) have "\<not> ?P (rs ! j)" by blast
      with jn obtain y where y: "y \<in> set rs" "rank y \<noteq> None" "rankNum y < n"
        by (auto simp: rankNum_def)
      with i(2) m have "m \<le> rankNum y" by (auto simp: rankNum_def)
      with y show "m < n" by simp
    qed
  qed
  with i m b show ?thesis by blast
qed

lemma otherGood_sort:
  "otherGood rs =
     sort_key rankNum (filter (\<lambda>e. rank e \<noteq> None \<and> Some (keyword e) \<noteq> map_option keyword (best rs)
                                \<and> rankNum e \<le> 10) rs)"
  by (simp add: otherGood_def ranked_def filter_sort conj_commute conj_left_commute)


lemma sample_tags: "extractHashtags (ascii ''#a #b #c'') = [ascii ''a'', ascii ''b'', ascii ''c'']"
  by (simp add: extractHashtags_def ascii_def isTagChar_def isHangul_def isAlnum_def replaceHash_def)

lemma sample_hangul: "hangulWords (ascii ''t'') = []" "hangulWords (ascii ''#a #b #c'') = []"
  by (simp_all add: ascii_def isHangul_def)

lemma sample_ngrams: "extractTitleNgrams (ascii ''t'') = []"
  by (simp add: extractTitleNgrams_def blankOthers_def splitWs.simps ascii_def isSpace_def
      isHangul_def isAlnum_def)

lemma sample_smart:
  "extractSmartKeywords (ascii ''t'') (ascii ''#a #b #c'') [ascii ''a'', ascii ''b'', ascii ''c'']
     = [ascii ''a'', ascii ''b'', ascii ''c'']"
  by (simp add: extractSmartKeywords_def extractNouns_def sample_hangul sample_ngrams scored_def
      sortByScore_def) (simp add: ascii_def)?

lemma sample_pool:
  "mergeKeywordPool [ascii ''a'', ascii ''b'', ascii ''c''] [ascii ''a'', ascii ''b'', ascii ''c'']
     = [ascii ''a'', ascii ''b'', ascii ''c'']"
  by (simp add: mergeKeywordPool_def ascii_def)


lemma pageAt_rankedApi:
  "pageAt rankedApi kw config w i =
     Page (Some (if kw = ascii ''b'' then replicate 6 missItem @ [hitItem]
                 else if kw = ascii ''c'' then replicate 2 missItem @ [hitItem]
                 else [missItem]))"
  by (simp add: pageAt_def rankedApi_def request_def)

lemma pageAt_rankedTitleApi:
  "pageAt rankedTitleApi kw config w i =
     Page (Some (if kw = ascii ''t'' then [hitItem]
                 else if kw = ascii ''b'' then replicate 6 missItem @ [hitItem]
                 else if kw = ascii ''c'' then replicate 2 missItem @ [hitItem]
                 else [missItem]))"
  by (simp add: pageAt_def rankedTitleApi_def request_def)

lemma sample_keywords_distinct:
  "ascii ''a'' \<noteq> ascii ''b''" "ascii ''a'' \<noteq> ascii ''c''" "ascii ''a'' \<noteq> ascii ''t''"
  "ascii ''b'' \<noteq> ascii ''c''" "ascii ''b'' \<noteq> ascii ''t''" "ascii ''c'' \<noteq> ascii ''t''"
  "ascii ''c'' \<noteq> ascii ''b''" "ascii ''t'' \<noteq> ascii ''b''" "ascii ''t'' \<noteq> ascii ''c''"
  by (simp_all add: ascii_def)

lemma probe_miss:
  assumes "pageAt search kw config w 0 = Page (Some [missItem])"
  shows "getBlogRank search asciiLower kw (ascii ''abc'') config onLog w lg
       = (None, lg, worldAt search kw config w (Suc 0))"
  by (rule getBlogRank_short [where xs = "[missItem]"])
     (simp_all add: assms itemsOf_def missItem_misses)

lemma probe_hit:
  assumes "pageAt search kw config w 0 = Page (Some (replicate n missItem @ [hitItem]))"
  shows "getBlogRank search asciiLower kw (ascii ''abc'') config onLog w lg
       = (Some (int n + 1), lg, worldAt search kw config w (Suc 0))"
proof -
  have "getBlogRank search asciiLower kw (ascii ''abc'') config onLog w lg
       = (Some (int (PAGE_SIZE * 0 + n + 1)), lg, worldAt search kw config w (Suc 0))"
    by (rule getBlogRank_hit [where xs = "replicate n missItem @ [hitItem]"])
       (simp_all add: assms itemsOf_def missItem_misses hitItem_matches nth_append)
  then show ?thesis by simp
qed

lemma rankedApi_probes:
  "getBlogRank rankedApi asciiLower (ascii ''t'') (ascii ''abc'') sampleConfig onLog w lg = (None, lg, ())"
  "getBlogRank rankedApi asciiLower (ascii ''a'') (ascii ''abc'') sampleConfig onLog w lg = (None, lg, ())"
  "getBlogRank rankedApi asciiLower (ascii ''b'') (ascii ''abc'') sampleConfig onLog w lg = (Some 7, lg, ())"
  "getBlogRank rankedApi asciiLower (ascii ''c'') (ascii ''abc'') sampleConfig onLog w lg = (Some 3, lg, ())"
  using probe_miss [of rankedApi "ascii ''t''" sampleConfig w onLog lg]
    probe_miss [of rankedApi "ascii ''a''" sampleConfig w onLog lg]
    probe_hit [of rankedApi "ascii ''b''" sampleConfig w 6 onLog lg]
    probe_hit [of rankedApi "ascii ''c''" sampleConfig w 2 onLog lg]
  by (simp_all add: pageAt_rankedApi sample_keywords_distinct)

lemma rankedTitleApi_probes:
  "getBlogRank rankedTitleApi asciiLower (ascii ''t'') (ascii ''abc'') sampleConfig onLog w lg = (Some 1, lg, ())"
  "getBlogRank rankedTitleApi asciiLower (ascii ''a'') (ascii ''abc'') sampleConfig onLog w lg = (None, lg, ())"
  "getBlogRank rankedTitleApi asciiLower (ascii ''b'') (ascii ''abc'') sampleConfig onLog w lg = (Some 7, lg, ())"
  "getBlogRank rankedTitleApi asciiLower (ascii ''c'') (ascii ''abc'') sampleConfig onLog w lg = (Some 3, lg, ())"
  using probe_hit [of rankedTitleApi "ascii ''t''" sampleConfig w 0 onLog lg]
    probe_miss [of rankedTitleApi "ascii ''a''" sampleConfig w onLog lg]
    probe_hit [of rankedTitleApi "ascii ''b''" sampleConfig w 6 onLog lg]
    probe_hit [of rankedTitleApi "ascii ''c''" sampleConfig w 2 onLog lg]
  by (simp_all add: pageAt_rankedTitleApi sample_keywords_distinct)

lemma sample_ranks:
  "ranks (fst (analyzeBlogPosts rankedApi asciiLower (ascii ''t'') (ascii ''#a #b #c'') (ascii ''abc'')
          sampleConfig () lg))
   = [\<lparr>keyword = ascii ''a'', rank = None\<rparr>, \<lparr>keyword = ascii ''b'', rank = Some 7\<rparr>,
      \<lparr>keyword = ascii ''c'', rank = Some 3\<rparr>]"
  "titleRank (fst (analyzeBlogPosts rankedApi asciiLower (ascii ''t'') (ascii ''#a #b #c'')
          (ascii ''abc'') sampleConfig () lg)) = None"
  using analyzeBlogPosts_probes [of rankedApi asciiLower "ascii ''t''" "ascii ''#a #b #c''"
      "ascii ''abc''" sampleConfig "()" lg]
  by (auto simp: sample_tags sample_smart sample_pool rankedApi_probes)

lemma sample_ranks_title:
  "ranks (fst (analyzeBlogPosts rankedTitleApi asciiLower (ascii ''t'') (ascii ''#a #b #c'') (ascii ''abc'')
          sampleConfig () lg))
   = [\<lparr>keyword = ascii ''a'', rank = None\<rparr>, \<lparr>keyword = ascii ''b'', rank = Some 7\<rparr>,
      \<lparr>keyword = ascii ''c'', rank = Some 3\<rparr>]"
  "titleRank (fst (analyzeBlogPosts rankedTitleApi asciiLower (ascii ''t'') (ascii ''#a #b #c'')
          (ascii ''abc'') sampleConfig () lg)) = Some 1"
  using analyzeBlogPosts_probes [of rankedTitleApi asciiLower "ascii ''t''" "ascii ''#a #b #c''"
      "ascii ''abc''" sampleConfig "()" lg]
  by (auto simp: sample_tags sample_smart sample_pool rankedTitleApi_probes)


text \<open>
  C1. In the result of \<open>analyzeBlogPosts\<close> the list \<open>ranks\<close> has one entry for each member
  of the pool, in pool order, and the pool has no duplicates. If every rank is null, the
  best keyword and best rank are null and there are no other good keywords. Otherwise the
  best keyword and rank are those of the entry with the smallest non-null rank, the
  earliest in pool order among equals. The other good keywords are the entries with a
  non-null rank of at most 10 whose keyword is not the best keyword, in ascending order
  of rank (entries of equal rank in pool order). The final keyword is the best keyword.
\<close>

theorem analyzeBlogPosts_best_keyword:
  "let r = fst (analyzeBlogPosts search lc title content blogId config w lg) in
     map keyword (ranks r) = pool r \<and> distinct (pool r)
     \<and> (list_all (\<lambda>e. rank e = None) (ranks r) \<longrightarrow>
          bestKeyword r = None \<and> bestRank r = None \<and> otherGoodKeywords r = [])
     \<and> (\<not> list_all (\<lambda>e. rank e = None) (ranks r) \<longrightarrow>
          (\<exists>i m. i < length (ranks r) \<and> rank (ranks r ! i) = Some m
             \<and> (\<forall>j n. j < length (ranks r) \<and> rank (ranks r ! j) = Some n
                   \<longrightarrow> m \<le> n \<and> (j < i \<longrightarrow> m < n))
             \<and> bestKeyword r = Some (keyword (ranks r ! i)) \<and> bestRank r = Some m))
     \<and> otherGoodKeywords r =
          sort_key rankNum
            (filter (\<lambda>e. rank e \<noteq> None \<and> Some (keyword e) \<noteq> bestKeyword r \<and> rankNum e \<le> 10)
               (ranks r))
     \<and> sorted (map rankNum (otherGoodKeywords r))
     \<and> finalKeyword r = bestKeyword r"
proof -
  define r where "r = fst (analyzeBlogPosts search lc title content blogId config w lg)"
  note f = analyzeBlogPosts_fields [OF r_def]
  have k: "map keyword (ranks r) = pool r"
    unfolding r_def by (rule analyzeBlogPosts_keywords)
  have d: "distinct (pool r)"
    by (simp add: f(3) mergeKeywordPool_def)
  have n: "bestKeyword r = None \<and> bestRank r = None \<and> otherGoodKeywords r = []"
    if "list_all (\<lambda>e. rank e = None) (ranks r)"
    using ranked_Nil [OF that] by (simp add: f best_def otherGood_def)
  have e: "\<exists>i m. i < length (ranks r) \<and> rank (ranks r ! i) = Some m
             \<and> (\<forall>j n. j < length (ranks r) \<and> rank (ranks r ! j) = Some n
                   \<longrightarrow> m \<le> n \<and> (j < i \<longrightarrow> m < n))
             \<and> bestKeyword r = Some (keyword (ranks r ! i)) \<and> bestRank r = Some m"
    if "\<not> list_all (\<lambda>e. rank e = None) (ranks r)"
  proof -
    from best_earliest_minimum [OF that] obtain i m where
      "i < length (ranks r)" "rank (ranks r ! i) = Some m"
      "\<forall>j n. j < length (ranks r) \<and> rank (ranks r ! j) = Some n \<longrightarrow> m \<le> n \<and> (j < i \<longrightarrow> m < n)"
      "best (ranks r) = Some (ranks r ! i)"
      by blast
    moreover from this have "bestKeyword r = Some (keyword (ranks r ! i))" "bestRank r = Some m"
      by (simp_all add: f)
    ultimately show ?thesis by blast
  qed
  have o: "otherGoodKeywords r =
          sort_key rankNum
            (filter (\<lambda>e. rank e \<noteq> None \<and> Some (keyword e) \<noteq> bestKeyword r \<and> rankNum e \<le> 10)
               (ranks r))"
    by (simp add: f(4,6) otherGood_sort)
  have s: "sorted (map rankNum (otherGoodKeywords r))"
    unfolding o by (rule sorted_sort_key)
  have "map keyword (ranks r) = pool r \<and> distinct (pool r)
     \<and> (list_all (\<lambda>e. rank e = None) (ranks r) \<longrightarrow>
          bestKeyword r = None \<and> bestRank r = None \<and> otherGoodKeywords r = [])
     \<and> (\<not> list_all (\<lambda>e. rank e = None) (ranks r) \<longrightarrow>
          (\<exists>i m. i < length (ranks r) \<and> rank (ranks r ! i) = Some m
             \<and> (\<forall>j n. j < length (ranks r) \<and> rank (ranks r ! j) = Some n
                   \<longrightarrow> m \<le> n \<and> (j < i \<longrightarrow> m < n))
             \<and> bestKeyword r = Some (keyword (ranks r ! i)) \<and> bestRank r = Some m))
     \<and> otherGoodKeywords r =
          sort_key rankNum
            (filter (\<lambda>e. rank e \<noteq> None \<and> Some (keyword e) \<noteq> bestKeyword r \<and> rankNum e \<le> 10)
               (ranks r))
     \<and> sorted (map rankNum (otherGoodKeywords r))
     \<and> finalKeyword r = bestKeyword r"
  proof (intro conjI impI)
    show "map keyword (ranks r) = pool r" by (rule k)
    show "distinct (pool r)" by (rule d)
    show "finalKeyword r = bestKeyword r" by (rule f(7))
    show "sorted (map rankNum (otherGoodKeywords r))" by (rule s)
    show "otherGoodKeywords r =
          sort_key rankNum
            (filter (\<lambda>e. rank e \<noteq> None \<and> Some (keyword e) \<noteq> bestKeyword r \<and> rankNum e \<le> 10)
               (ranks r))" by (rule o)
  qed (use n e in blast)+
  then show ?thesis
    unfolding Let_def r_def [symmetric] .
qed

text \<open>
  The ranks null, 7 and 3 for the keywords \<open>a\<close>, \<open>b\<close> and \<open>c\<close>: the best keyword is \<open>c\<close>
  at rank 3 and the one other good keyword is \<open>b\<close> at rank 7.
\<close>

theorem analyzeBlogPosts_best_keyword_witness:
  "let r = fst (analyzeBlogPosts rankedApi asciiLower (ascii ''t'') (ascii ''#a #b #c'')
             (ascii ''abc'') sampleConfig () []) in
     ranks r = [\<lparr>keyword = ascii ''a'', rank = None\<rparr>, \<lparr>keyword = ascii ''b'', rank = Some 7\<rparr>,
                \<lparr>keyword = ascii ''c'', rank = Some 3\<rparr>]
     \<and> \<not> list_all (\<lambda>e. rank e = None) (ranks r)
     \<and> bestKeyword r = Some (ascii ''c'') \<and> bestRank r = Some 3
     \<and> otherGoodKeywords r = [\<lparr>keyword = ascii ''b'', rank = Some 7\<rparr>]
     \<and> finalKeyword r = Some (ascii ''c'')"
proof -
  define r where "r = fst (analyzeBlogPosts rankedApi asciiLower (ascii ''t'') (ascii ''#a #b #c'')
             (ascii ''abc'') sampleConfig () ([] :: unit LogMsg list))"
  note t = analyzeBlogPosts_best_keyword [of rankedApi asciiLower "ascii ''t''" "ascii ''#a #b #c''"
      "ascii ''abc''" sampleConfig "()" "[]", unfolded Let_def, folded r_def]
  have rs: "ranks r = [\<lparr>keyword = ascii ''a'', rank = None\<rparr>, \<lparr>keyword = ascii ''b'', rank = Some 7\<rparr>,
                \<lparr>keyword = ascii ''c'', rank = Some 3\<rparr>]"
    unfolding r_def by (rule sample_ranks)
  then have nn: "\<not> list_all (\<lambda>e. rank e = None) (ranks r)" by simp
  with t obtain i m where im: "i < length (ranks r)" "rank (ranks r ! i) = Some m"
    "\<forall>j n. j < length (ranks r) \<and> rank (ranks r ! j) = Some n \<longrightarrow> m \<le> n \<and> (j < i \<longrightarrow> m < n)"
    "bestKeyword r = Some (keyword (ranks r ! i))" "bestRank r = Some m"
    by blast
  from im(3) [rule_format, of 2 3] rs have "m \<le> 3" by simp
  with im(1,2) rs have "i = 2 \<and> m = 3" by (auto simp: nth_Cons' less_Suc_eq split: if_splits)
  with im rs have b: "bestKeyword r = Some (ascii ''c'')" "bestRank r = Some 3" by simp_all
  from t have "otherGoodKeywords r =
          sort_key rankNum
            (filter (\<lambda>e. rank e \<noteq> None \<and> Some (keyword e) \<noteq> bestKeyword r \<and> rankNum e \<le> 10)
               (ranks r))" by blast
  then have o: "otherGoodKeywords r = [\<lparr>keyword = ascii ''b'', rank = Some 7\<rparr>]"
    by (simp add: rs b rankNum_def sample_keywords_distinct)
  from t b have "finalKeyword r = Some (ascii ''c'')" by simp
  with rs nn b o show ?thesis unfolding Let_def r_def [symmetric] by simp
qed

text \<open>
  Two APIs that agree on the pool and differ on the title: the results differ in
  \<open>titleRank\<close> (null and 1) and in nothing else.
\<close>

theorem analyzeBlogPosts_titleRank_diagnostic_witness:
  "map rank (ranks (fst (analyzeBlogPosts rankedApi asciiLower (ascii ''t'') (ascii ''#a #b #c'')
        (ascii ''abc'') sampleConfig () [])))
     = map rank (ranks (fst (analyzeBlogPosts rankedTitleApi asciiLower (ascii ''t'')
        (ascii ''#a #b #c'') (ascii ''abc'') sampleConfig () [])))
   \<and> titleRank (fst (analyzeBlogPosts rankedApi asciiLower (ascii ''t'') (ascii ''#a #b #c'')
        (ascii ''abc'') sampleConfig () [])) = None
   \<and> titleRank (fst (analyzeBlogPosts rankedTitleApi asciiLower (ascii ''t'') (ascii ''#a #b #c'')
        (ascii ''abc'') sampleConfig () [])) = Some 1
   \<and> fst (analyzeBlogPosts rankedTitleApi asciiLower (ascii ''t'') (ascii ''#a #b #c'')
        (ascii ''abc'') sampleConfig () [])
     = (fst (analyzeBlogPosts rankedApi asciiLower (ascii ''t'') (ascii ''#a #b #c'')
        (ascii ''abc'') sampleConfig () [])) \<lparr>titleRank := Some 1\<rparr>
   \<and> bestKeyword (fst (analyzeBlogPosts rankedApi asciiLower (ascii ''t'') (ascii ''#a #b #c'')
        (ascii ''abc'') sampleConfig () []))
     = bestKeyword (fst (analyzeBlogPosts rankedTitleApi asciiLower (ascii ''t'')
        (ascii ''#a #b #c'') (ascii ''abc'') sampleConfig () []))"
proof -
  have h: "map rank (ranks (fst (analyzeBlogPosts rankedApi asciiLower (ascii ''t'') (ascii ''#a #b #c'')
        (ascii ''abc'') sampleConfig () ([] :: unit LogMsg list))))
     = map rank (ranks (fst (analyzeBlogPosts rankedTitleApi asciiLower (ascii ''t'')
        (ascii ''#a #b #c'') (ascii ''abc'') sampleConfig () ([] :: unit LogMsg list))))"
    by (simp add: sample_ranks sample_ranks_title)
  note t = analyzeBlogPosts_titleRank_diagnostic [OF h]
  show ?thesis
  proof (intro conjI)
    show "fst (analyzeBlogPosts rankedTitleApi asciiLower (ascii ''t'') (ascii ''#a #b #c'')
        (ascii ''abc'') sampleConfig () ([] :: unit LogMsg list))
     = (fst (analyzeBlogPosts rankedApi asciiLower (ascii ''t'') (ascii ''#a #b #c'')
        (ascii ''abc'') sampleConfig () [])) \<lparr>titleRank := Some 1\<rparr>"
      by (rule t [THEN conjunct1, unfolded sample_ranks_title(2)])
  qed (rule h sample_ranks(2) sample_ranks_title(2) t [THEN conjunct2, THEN conjunct1])+
qed


section \<open>Volume values\<close>

lemma includesStr_single: "includesStr s [c] \<longleftrightarrow> c \<in> set s"
  by (induction s) auto

text \<open>
  C9. \<open>parseVolume\<close> returns a number unchanged and returns 5 for every string that
  contains \<open><\<close>; for a string that \<open>Number\<close> reads as a number it returns that number
  (\<open>Number\<close> reads no string with \<open><\<close> in it as a number); for a string or another value
  that \<open>Number\<close> cannot read it returns 0.
\<close>

theorem parseVolume_cases:
  "(\<forall>s. 60 \<in> set s \<longrightarrow> toNumber (VString s) = NaN) \<Longrightarrow>
   parseVolume toNumber (VNumber n) = n
   \<and> (60 \<in> set s \<longrightarrow> parseVolume toNumber (VString s) = Fin 5)
   \<and> (toNumber (VString s) \<noteq> NaN \<longrightarrow> parseVolume toNumber (VString s) = toNumber (VString s))
   \<and> (60 \<notin> set s \<and> toNumber (VString s) = NaN \<longrightarrow> parseVolume toNumber (VString s) = Fin 0)
   \<and> (toNumber (VOther x) = NaN \<longrightarrow> parseVolume toNumber (VOther x) = Fin 0)"
  by (auto simp: parseVolume_def includesStr_single Let_def)

text \<open>The number 7, and the strings \<open><10\<close>, \<open>1234\<close> and \<open>abc\<close>, and \<open>undefined\<close>.\<close>

theorem parseVolume_cases_witness:
  "parseVolume sampleNumber (VNumber (Fin 7)) = Fin 7
   \<and> parseVolume sampleNumber (VString [60, 49, 48]) = Fin 5
   \<and> parseVolume sampleNumber (VString [49, 50, 51, 52]) = Fin 1234
   \<and> parseVolume sampleNumber (VString [97, 98, 99]) = Fin 0
   \<and> parseVolume sampleNumber (VOther ()) = Fin 0"
proof -
  have h: "\<forall>s. 60 \<in> set s \<longrightarrow> sampleNumber (VString s) = NaN"
    by (auto simp: sampleNumber_def)
  show ?thesis
    using parseVolume_cases [OF h, of "Fin 7" "[60, 49, 48]" "()"]
      parseVolume_cases [OF h, of "Fin 7" "[49, 50, 51, 52]" "()"]
      parseVolume_cases [OF h, of "Fin 7" "[97, 98, 99]" "()"]
    by (simp add: sampleNumber_def)
qed

section \<open>Smart keywords\<close>

lemma uniq_append: "uniq (xs @ ys) = uniq xs @ filter (\<lambda>y. y \<notin> set xs) (uniq ys)"
  by (induction ys rule: rev_induct) (simp_all add: uniq_snoc flip: append_assoc)

lemma uniq_uniq_append: "uniq (uniq xs @ ys) = uniq (xs @ ys)"
  by (simp add: uniq_append uniq_distinct)

lemma map_of_counts:
  "map_of (map (\<lambda>word. (word, f word)) xs) w = (if w \<in> set xs then Some (f w) else None)"
  by (induction xs) auto

lemma mapGet_countsOf: "mapGet (countsOf toks) w = count_list toks w"
  by (simp add: mapGet_def countsOf_def map_of_counts)

lemma mapHas_countsOf: "mapHas (countsOf toks) w \<longleftrightarrow> w \<in> set toks"
  by (simp add: mapHas_def countsOf_def map_of_counts)

lemma mapSet_absent: "w \<notin> set xs \<Longrightarrow> mapSet (map (\<lambda>v. (v, f v)) xs) w c = map (\<lambda>v. (v, f v)) xs @ [(w, c)]"
  by (induction xs) auto

lemma mapSet_present:
  "distinct xs \<Longrightarrow> w \<in> set xs \<Longrightarrow>
   mapSet (map (\<lambda>v. (v, f v)) xs) w c = map (\<lambda>v. (v, if v = w then c else f v)) xs"
  by (induction xs) auto

lemma countsOf_snoc:
  "mapSet (countsOf toks) w (mapGet (countsOf toks) w + 1) = countsOf (toks @ [w])"
proof (cases "w \<in> set toks")
  case True
  then have "mapSet (countsOf toks) w (mapGet (countsOf toks) w + 1)
      = map (\<lambda>v. (v, if v = w then count_list toks w + 1 else count_list toks v)) (uniq toks)"
    by (simp add: mapGet_countsOf) (simp add: countsOf_def mapSet_present)
  also have "\<dots> = countsOf (toks @ [w])"
    using True by (auto simp: countsOf_def uniq_snoc)
  finally show ?thesis .
next
  case False
  then have "mapSet (countsOf toks) w (mapGet (countsOf toks) w + 1)
      = map (\<lambda>v. (v, count_list toks v)) (uniq toks) @ [(w, 1)]"
    by (simp add: mapGet_countsOf) (simp add: countsOf_def mapSet_absent)
  also have "\<dots> = countsOf (toks @ [w])"
    using False by (auto simp: countsOf_def uniq_snoc)
  finally show ?thesis .
qed

lemma nounLoop_counts:
  "nounLoop (countsOf pre) raws =
     countsOf (pre @ filter (\<lambda>word. \<not> (length word < 2 \<or> word \<in> set STOPWORDS))
                        (map stripParticles raws))"
proof (induction raws arbitrary: pre)
  case Nil
  then show ?case by simp
next
  case (Cons raw raws)
  show ?case
  proof (cases "length (stripParticles raw) < 2 \<or> stripParticles raw \<in> set STOPWORDS")
    case True
    then show ?thesis using Cons [of pre] by (auto simp: Let_def)
  next
    case False
    then show ?thesis using Cons [of "pre @ [stripParticles raw]"]
      by (simp add: Let_def countsOf_snoc [simplified])
  qed
qed

lemma extractNouns_counts: "extractNouns txt = countsOf (nounTokens txt)"
  using nounLoop_counts [of "[]" "hangulWords txt"]
  by (simp add: extractNouns_def nounTokens_def countsOf_def)

lemma filter_map_graph:
  "filter (\<lambda>(v, n). P v n) (map (\<lambda>v. (v, g v)) xs) = [(v, g v). v \<leftarrow> xs, P v (g v)]"
  by (induction xs) auto

lemma scored_candidates:
  "scored (extractNouns title) (extractNouns content) = candidates title content"
proof -
  have 1: "map (\<lambda>(word, titleFreq). (word, titleFreq * 3 + mapGet (countsOf c) word)) (countsOf t)
      = [(word, count_list t word * 3 + count_list c word). word \<leftarrow> uniq t]" for t c
    by (simp add: countsOf_def mapGet_countsOf [unfolded countsOf_def] comp_def)
  have 2: "filter (\<lambda>(word, freq). \<not> mapHas (countsOf t) word \<and> freq \<ge> 2) (countsOf c)
      = [(word, count_list c word). word \<leftarrow> uniq c, word \<notin> set t \<and> count_list c word \<ge> 2]" for t c
    unfolding mapHas_countsOf by (simp add: countsOf_def filter_map_graph)
  show ?thesis
    unfolding scored_def extractNouns_counts candidates_def 1 2 ..
qed


lemma uniq_filter: "uniq (filter P xs) = filter P (uniq xs)"
proof (induction xs rule: uniq.induct)
  case 1
  then show ?case by simp
next
  case (2 x xs)
  have c: "removeAll x (filter P xs) = filter P (removeAll x xs)"
    by (simp add: removeAll_filter_not_eq conj_commute)
  show ?case
  proof (cases "P x")
    case True
    with 2 c show ?thesis by simp
  next
    case False
    then have "filter P (removeAll x xs) = filter P xs"
      by (auto simp: removeAll_filter_not_eq intro: filter_cong)
    with 2 False show ?thesis by simp
  qed
qed

lemma uniq_append_member: "x \<in> set ys \<Longrightarrow> uniq (ys @ x # xs) = uniq (ys @ xs)"
proof -
  assume x: "x \<in> set ys"
  have "filter (\<lambda>y. y \<notin> set ys) (uniq (removeAll x xs)) = filter (\<lambda>y. y \<notin> set ys) (uniq xs)"
    using x by (auto simp: removeAll_filter_not_eq uniq_filter intro: filter_cong)
  with x show ?thesis by (simp add: uniq_append)
qed

lemma pushLoop_uniq:
  "distinct result \<Longrightarrow> length result \<le> 5 \<Longrightarrow> pushLoop result xs = take 5 (uniq (result @ xs))"
proof (induction xs arbitrary: result)
  case Nil
  then show ?case by (simp add: uniq_distinct)
next
  case (Cons x xs)
  show ?case
  proof (cases "length result \<ge> 5")
    case True
    with Cons.prems show ?thesis by (simp add: uniq_append uniq_distinct)
  next
    case short: False
    show ?thesis
    proof (cases "x \<in> set result")
      case True
      with short Cons show ?thesis by (simp add: uniq_append_member)
    next
      case False
      with short Cons.prems have "pushLoop (result @ [x]) xs = take 5 (uniq ((result @ [x]) @ xs))"
        by (intro Cons.IH) auto
      with short False show ?thesis by simp
    qed
  qed
qed

lemma take_uniq_append: "5 \<le> length (uniq xs) \<Longrightarrow> take 5 (uniq (xs @ ys)) = take 5 (uniq xs)"
  by (simp add: uniq_append)

text \<open>
  C4. \<open>extractSmartKeywords\<close> returns the first five entries, without duplicates, of the
  hashtags in their order, followed by the scored candidates (title nouns at three times
  the title frequency plus the content frequency, content-only nouns of frequency at
  least 2 at that frequency) in descending order of score, candidates of equal score in
  the order in which they were collected, followed by the title n-grams in the order of
  their generation. So it has at most five entries and no duplicates; with fewer than
  five distinct hashtags all of them come first and nothing behind them is a hashtag;
  with five or more the result is the first five. The list may be shorter than five.
\<close>

theorem extractSmartKeywords_fill_order:
  "extractSmartKeywords title content tags
     = take 5 (uniq (tags @ map fst (sortByScore (candidates title content)) @ extractTitleNgrams title))
   \<and> length (extractSmartKeywords title content tags) \<le> 5
   \<and> distinct (extractSmartKeywords title content tags)
   \<and> (length (uniq tags) < 5 \<longrightarrow>
        (\<exists>derived. extractSmartKeywords title content tags = uniq tags @ derived
           \<and> set derived \<inter> set tags = {}))
   \<and> (5 \<le> length (uniq tags) \<longrightarrow> extractSmartKeywords title content tags = take 5 (uniq tags))
   \<and> sorted_wrt (\<lambda>a b. snd a \<ge> snd b) (sortByScore (candidates title content))
   \<and> (\<forall>k. filter (\<lambda>e. snd e = k) (sortByScore (candidates title content))
            = filter (\<lambda>e. snd e = k) (candidates title content))
   \<and> set (sortByScore (candidates title content)) = set (candidates title content)"
proof -
  let ?nouns = "map fst (sortByScore (candidates title content))"
  let ?grams = "extractTitleNgrams title"
  have r1: "pushLoop [] tags = take 5 (uniq tags)"
    using pushLoop_uniq [of "[]" tags] by simp
  have main: "extractSmartKeywords title content tags = take 5 (uniq (tags @ ?nouns @ ?grams))"
  proof (cases "5 \<le> length (uniq tags)")
    case True
    then show ?thesis
      by (simp add: extractSmartKeywords_def r1 take_uniq_append)
  next
    case t: False
    then have e1: "take 5 (uniq tags) = uniq tags" by simp
    have r2: "pushLoop (uniq tags) ?nouns = take 5 (uniq (tags @ ?nouns))"
      using pushLoop_uniq [of "uniq tags" ?nouns] t by (simp add: uniq_uniq_append)
    show ?thesis
    proof (cases "5 \<le> length (uniq (tags @ ?nouns))")
      case True
      then have "take 5 (uniq (tags @ ?nouns @ ?grams)) = take 5 (uniq (tags @ ?nouns))"
        using take_uniq_append [of "tags @ ?nouns" ?grams] by simp
      with True t show ?thesis
        by (simp add: extractSmartKeywords_def r1 e1 scored_candidates r2 Let_def)
    next
      case False
      then have e2: "take 5 (uniq (tags @ ?nouns)) = uniq (tags @ ?nouns)" by simp
      have "pushLoop (uniq (tags @ ?nouns)) ?grams = take 5 (uniq (tags @ ?nouns @ ?grams))"
        using pushLoop_uniq [of "uniq (tags @ ?nouns)" ?grams] False
        by (simp add: uniq_uniq_append)
      with False t show ?thesis
        by (simp add: extractSmartKeywords_def r1 e1 scored_candidates r2 e2 Let_def)
    qed
  qed
  have len: "length (extractSmartKeywords title content tags) \<le> 5"
    by (simp add: main)
  have dist: "distinct (extractSmartKeywords title content tags)"
    by (simp add: main distinct_take)
  have pre: "\<exists>derived. extractSmartKeywords title content tags = uniq tags @ derived
           \<and> set derived \<inter> set tags = {}" if "length (uniq tags) < 5"
  proof -
    have "extractSmartKeywords title content tags
        = uniq tags @ take (5 - length (uniq tags))
            (filter (\<lambda>y. y \<notin> set tags) (uniq (?nouns @ ?grams)))"
      using that by (simp add: main uniq_append)
    moreover have "set (take (5 - length (uniq tags))
            (filter (\<lambda>y. y \<notin> set tags) (uniq (?nouns @ ?grams)))) \<inter> set tags = {}"
      by (auto dest: in_set_takeD)
    ultimately show ?thesis by blast
  qed
  have full: "extractSmartKeywords title content tags = take 5 (uniq tags)"
    if "5 \<le> length (uniq tags)"
    using that by (simp add: main take_uniq_append)
  have srt: "sorted_wrt (\<lambda>a b. snd a \<ge> snd b) (sortByScore (candidates title content))"
    using sorted_sort_key [of "\<lambda>e. - int (snd e)" "candidates title content"]
    by (simp add: sortByScore_def sorted_map)
  have stab: "filter (\<lambda>e. snd e = k) (sortByScore (candidates title content))
            = filter (\<lambda>e. snd e = k) (candidates title content)" for k
    using sort_key_stable [of "\<lambda>e. - int (snd e)" "- int k" "candidates title content"]
    by (simp add: sortByScore_def)
  have st: "set (sortByScore (candidates title content)) = set (candidates title content)"
    by (simp add: sortByScore_def)
  from main len dist pre full srt stab st show ?thesis by blast
qed


lemma sample_nounTokens:
  "nounTokens sampleTitle = [[44053, 45224], [47579, 51665]]"
  "nounTokens sampleContent = [[47579, 51665], [47579, 51665], [52852, 54168], [52852, 54168]]"
  by (simp_all add: nounTokens_def sampleTitle_def sampleContent_def isHangul_def
      stripParticles_def PARTICLES_def endsWith_def sliceEnd_def STOPWORDS_def)

lemma sample_candidates:
  "candidates sampleTitle sampleContent
     = [([44053, 45224], 3), ([47579, 51665], 5), ([52852, 54168], 2)]"
  by (simp add: candidates_def sample_nounTokens)

lemma sample_title_ngrams:
  "extractTitleNgrams sampleTitle = [[44053, 45224, 32, 47579, 51665]]"
  by (simp add: extractTitleNgrams_def sampleTitle_def blankOthers_def splitWs.simps isSpace_def
      isHangul_def isAlnum_def stripParticles_def PARTICLES_def endsWith_def sliceEnd_def)

text \<open>
  A title of two nouns, a content with one of them twice and a third noun twice, and one
  hashtag: the hashtag, the nouns at scores 5, 3 and 2, and the title bigram. A title and
  content without nouns and one hashtag: the hashtag alone.
\<close>

theorem extractSmartKeywords_fill_order_witness:
  "extractSmartKeywords sampleTitle sampleContent [[49436, 50872]]
     = [[49436, 50872], [47579, 51665], [44053, 45224], [52852, 54168],
        [44053, 45224, 32, 47579, 51665]]
   \<and> length (uniq [[49436, 50872 :: nat]]) < 5
   \<and> (\<exists>derived. extractSmartKeywords sampleTitle sampleContent [[49436, 50872]]
          = uniq [[49436, 50872]] @ derived \<and> set derived \<inter> set [[49436, 50872]] = {})
   \<and> extractSmartKeywords (ascii ''t'') [] [ascii ''a''] = [ascii ''a'']"
proof -
  note t = extractSmartKeywords_fill_order [of sampleTitle sampleContent "[[49436, 50872]]"]
  have "extractSmartKeywords sampleTitle sampleContent [[49436, 50872]]
     = [[49436, 50872], [47579, 51665], [44053, 45224], [52852, 54168],
        [44053, 45224, 32, 47579, 51665]]"
    using t [THEN conjunct1]
    by (simp add: sample_candidates sample_title_ngrams sortByScore_def)
  moreover have l: "length (uniq [[49436, 50872 :: nat]]) < 5" by simp
  moreover from t l have "\<exists>derived. extractSmartKeywords sampleTitle sampleContent [[49436, 50872]]
          = uniq [[49436, 50872]] @ derived \<and> set derived \<inter> set [[49436, 50872]] = {}"
    by blast
  moreover have "extractSmartKeywords (ascii ''t'') [] [ascii ''a''] = [ascii ''a'']"
    using extractSmartKeywords_fill_order [of "ascii ''t''" "[]" "[ascii ''a'']", THEN conjunct1]
    by (simp add: candidates_def nounTokens_def sample_hangul sample_ngrams sortByScore_def)
  ultimately show ?thesis by blast
qed


end
